theory Spec2Isabelle
  imports Main "HOL-Library.Signed_Division"
begin

unbundle bit_operations_syntax

section \<open>The class \<open>Poly\<close> of lab2.cpp\<close>

text \<open>
  The program is one C++ class, \<open>Poly\<close>, with two public fields: the modulus \<open>p\<close> and
  the coefficient vector \<open>a\<close> (\<open>a[0]\<close> is the constant term). Every method is embedded
  as a function on a record with the same two fields.

  Conventions of the embedding.
  \<^item> C++ \<open>int\<close> and \<open>long long\<close> values are HOL integers. The operators \<open>/\<close> and \<open>%\<close> of
    C++ truncate towards zero: they are \<open>sdiv\<close> and \<open>smod\<close>, not \<open>div\<close> and \<open>mod\<close>.
  \<^item> The modulus and the coefficients are \<open>int\<close> values, between \<open>-2^31\<close> and \<open>2^31 - 1\<close>.
    A sum, a difference or a product that the program computes in \<open>int\<close> and that can
    leave this range is wrapped by \<open>int32\<close> to its two's-complement value in 32 bits, which
    the usual compilers produce: so in \<open>Normalize\<close>, in \<open>operator +\<close>, in \<open>operator -\<close>
    and in \<open>InvMod\<close>. Quotients and remainders stay in the range of their operands, and the
    products that \<open>operator *\<close> and \<open>DivMod\<close> compute in \<open>long long\<close> (\<open>1LL\<close>) are
    products of two \<open>int\<close> values, which fit: these are not wrapped. \<open>PowInt\<close>
    accumulates \<open>p^n\<close> in a \<open>long long\<close>: there the two's-complement value in 64 bits is
    written out with \<open>signed_take_bit 63\<close>. With a modulus up to \<open>2^30\<close> and coefficients in
    \<open>[0, p - 1]\<close> nothing wraps; the theorems on the arithmetic assume such a modulus,
    and above it the program computes other values (see C6 to C10).
  \<^item> The size of a vector is a natural number, \<open>Degree\<close> is the size minus one, and the
    counter \<open>i\<close> of \<open>PrimeDivisors\<close> with its square is an integer: none of them
    comes near \<open>2^31\<close> for a vector of fewer than \<open>2 * 10^9\<close> coefficients.
  \<^item> \<open>std::runtime_error\<close> is a value of type \<open>error\<close>; a method that can throw
    returns \<open>error + 'a\<close>, with \<open>Inl\<close> for the exception.
  \<^item> A \<open>while\<close> loop whose exit depends on the data is a \<open>partial_function\<close> in the
    option monad: \<open>None\<close> stands for a loop that never exits. A method that can both
    throw and loop returns \<open>(error + 'a) option\<close>; \<open>bind_res\<close> puts two such calls in
    sequence, and an exception or a non-returning call in the first ends the sequence.
  \<^item> The program is undefined for \<open>p = 0\<close> (a remainder by zero) and where it reads
    \<open>back()\<close> of an empty vector; the theorems below are about positive moduli and,
    where \<open>back()\<close> is read, about non-empty vectors, and say so.
\<close>

datatype error = DivisionByZeroPolynomial | NotInvertible

text \<open>The value an \<open>int\<close> holds after an operation whose result may leave the type: the
  two's-complement reading of the low 32 bits.\<close>

definition int32 :: "int \<Rightarrow> int" where
  "int32 x = signed_take_bit 31 x"

record Poly =
  p :: int
  a :: "int list"

definition bind_res :: "(error + 'x) option \<Rightarrow> ('x \<Rightarrow> (error + 'y) option) \<Rightarrow> (error + 'y) option" where
  "bind_res r g = (case r of None \<Rightarrow> None | Some (Inl e) \<Rightarrow> Some (Inl e) | Some (Inr v) \<Rightarrow> g v)"

subsection \<open>Constructors, \<open>Normalize\<close>, \<open>Degree\<close>\<close>

text \<open>The first loop of \<open>Normalize\<close>: \<open>while (a.size() > 1 && a.back() % p == 0) a.pop_back()\<close>.\<close>

function Normalize_pop :: "int \<Rightarrow> int list \<Rightarrow> int list" where
  "Normalize_pop m xs =
     (if 1 < length xs \<and> last xs smod m = 0 then Normalize_pop m (butlast xs) else xs)"
  by pat_completeness auto
termination
  by (relation "measure (\<lambda>(m, xs). length xs)") auto

text \<open>\<open>Normalize\<close>: the loop above, then \<open>x = (x % p + p) % p\<close> for every coefficient,
  the sum in \<open>int\<close>.\<close>

definition Normalize :: "Poly \<Rightarrow> Poly" where
  "Normalize f =
     f\<lparr>a := map (\<lambda>x. int32 (x smod p f + p f) smod p f) (Normalize_pop (p f) (a f))\<rparr>"

text \<open>\<open>Poly(int mod)\<close> and \<open>Poly(const std::vector<int>& v, int mod)\<close>.\<close>

definition Poly_mod :: "int \<Rightarrow> Poly" where
  "Poly_mod m = \<lparr>p = m, a = [0]\<rparr>"

definition Poly_vec :: "int list \<Rightarrow> int \<Rightarrow> Poly" where
  "Poly_vec v m = Normalize \<lparr>p = m, a = v\<rparr>"

definition Degree :: "Poly \<Rightarrow> int" where
  "Degree f = int (length (a f)) - 1"

subsection \<open>The operators \<open>+\<close>, \<open>-\<close> and \<open>*\<close>\<close>

text \<open>\<open>std::vector::resize(n, 0)\<close>.\<close>

definition resize :: "nat \<Rightarrow> int list \<Rightarrow> int list" where
  "resize n xs = take n xs @ replicate (n - length xs) 0"

text \<open>\<open>operator +\<close>: the copy \<open>r\<close> of \<open>*this\<close> is grown to the length of \<open>t\<close>, then
  \<open>r.a[i] = (r.a[i] + t.a[i]) % p\<close> for every index of \<open>t\<close>.\<close>

definition Add :: "Poly \<Rightarrow> Poly \<Rightarrow> Poly" where
  "Add f t =
     (let r0 = (if length (a f) < length (a t) then resize (length (a t)) (a f) else a f);
          r1 = foldl (\<lambda>r i. r[i := int32 (r ! i + a t ! i) smod p f]) r0 [0..<length (a t)]
      in Normalize \<lparr>p = p f, a = r1\<rparr>)"

text \<open>\<open>operator -\<close>: as \<open>+\<close>, with \<open>r.a[i] = (r.a[i] - t.a[i] + p) % p\<close>.\<close>

definition Subtract :: "Poly \<Rightarrow> Poly \<Rightarrow> Poly" where
  "Subtract f t =
     (let r0 = (if length (a f) < length (a t) then resize (length (a t)) (a f) else a f);
          r1 = foldl (\<lambda>r i. r[i := int32 (int32 (r ! i - a t ! i) + p f) smod p f])
                 r0 [0..<length (a t)]
      in Normalize \<lparr>p = p f, a = r1\<rparr>)"

text \<open>\<open>operator *\<close>: \<open>a.size() + t.a.size() - 1\<close> zeros, then the double loop
  \<open>r.a[i + j] = (r.a[i + j] + a[i] * 1LL * t.a[j]) % p\<close>. (The size is computed in
  \<open>size_t\<close>; for two empty vectors it wraps and the allocation fails, which no caller
  of the program reaches and the natural-number subtraction does not show.)\<close>

definition Multiply :: "Poly \<Rightarrow> Poly \<Rightarrow> Poly" where
  "Multiply f t =
     (let r0 = replicate (length (a f) + length (a t) - 1) 0;
          r1 = foldl (\<lambda>r i.
                 foldl (\<lambda>r j. r[i + j := (r ! (i + j) + a f ! i * a t ! j) smod p f])
                   r [0..<length (a t)])
               r0 [0..<length (a f)]
      in Normalize \<lparr>p = p f, a = r1\<rparr>)"

subsection \<open>\<open>InvMod\<close>: the extended Euclidean algorithm\<close>

text \<open>The loop \<open>while (r1) { q = r0 / r1; r0 -= q * r1; swap(r0, r1); s0 -= q * s1;
  swap(s0, s1); }\<close> on the state \<open>(r0, r1, s0, s1)\<close>, every product and difference in
  \<open>int\<close>. The loop ends for all arguments, since \<open>|r1|\<close> decreases.\<close>

function InvMod_loop :: "int \<Rightarrow> int \<Rightarrow> int \<Rightarrow> int \<Rightarrow> int \<times> int" where
  "InvMod_loop r0 r1 s0 s1 =
     (if r1 \<noteq> 0
      then (let q = r0 sdiv r1
            in InvMod_loop r1 (int32 (r0 - int32 (q * r1))) s1 (int32 (s0 - int32 (q * s1))))
      else (r0, s0))"
  by pat_completeness auto
termination
proof (relation "measure (\<lambda>(r0, r1, s0, s1). nat \<bar>r1\<bar>)")
  show "wf (measure (\<lambda>(r0, r1, s0, s1). nat \<bar>r1\<bar>))"
    by simp
next
  fix r0 r1 s0 s1 q :: int
  assume nz: "r1 \<noteq> 0" and q: "q = r0 sdiv r1"
  have "int32 (r0 - int32 (q * r1)) = int32 (r0 - q * r1)"
    unfolding int32_def by (metis signed_take_bit_diff signed_take_bit_signed_take_bit min.idem)
  also have "r0 - q * r1 = r0 smod r1"
    unfolding q by (rule minus_sdiv_mult_eq_smod)
  finally have eq: "int32 (r0 - int32 (q * r1)) = int32 (r0 smod r1)" .
  have lt: "\<bar>r0 smod r1\<bar> < \<bar>r1\<bar>"
    using smod_int_range [OF nz, of r0] by auto
  have "\<bar>int32 (r0 smod r1)\<bar> \<le> \<bar>r0 smod r1\<bar>"
  proof (cases "- (2 ^ 31) \<le> r0 smod r1 \<and> r0 smod r1 < 2 ^ 31")
    case True
    then show ?thesis
      by (simp add: int32_def signed_take_bit_int_eq_self)
  next
    case False
    then have "2 ^ 31 \<le> \<bar>r0 smod r1\<bar>"
      by auto
    moreover have "- (2 ^ 31) \<le> int32 (r0 smod r1)" "int32 (r0 smod r1) < 2 ^ 31"
      unfolding int32_def
      using signed_take_bit_int_greater_eq_minus_exp [of 31 "r0 smod r1"]
        signed_take_bit_int_less_exp [of 31 "r0 smod r1"] by simp_all
    ultimately show ?thesis
      by linarith
  qed
  then show "((r1, int32 (r0 - int32 (q * r1)), s1, int32 (s0 - int32 (q * s1))), (r0, r1, s0, s1))
      \<in> measure (\<lambda>(r0, r1, s0, s1). nat \<bar>r1\<bar>)"
    using lt by (simp add: eq)
qed

definition InvMod :: "int \<Rightarrow> int \<Rightarrow> error + int" where
  "InvMod x m =
     (case InvMod_loop x m 1 0 of
        (r0, s0) \<Rightarrow> if r0 \<noteq> 1 then Inl NotInvertible else Inr (int32 (s0 smod m + m) smod m))"

subsection \<open>\<open>DivMod\<close>\<close>

text \<open>One iteration of the loop subtracts \<open>coef * x^shift * d\<close> from the remainder and
  cancels its leading coefficient, so the remainder gets shorter or becomes zero, and the
  coefficients of \<open>Q * d + R\<close> do not change. The loop therefore exits, by induction on the
  length of the remainder.\<close>

text \<open>The vector \<open>sub\<close> of one iteration: \<open>shift + d.a.size()\<close> zeros, then
  \<open>sub[shift + i] = (coef * 1LL * d.a[i]) % p\<close>.\<close>

definition DivMod_sub :: "int \<Rightarrow> int \<Rightarrow> nat \<Rightarrow> int list \<Rightarrow> int list" where
  "DivMod_sub m coef shift ds =
     foldl (\<lambda>s i. s[shift + i := (coef * ds ! i) smod m])
       (replicate (shift + length ds) 0) [0..<length ds]"

text \<open>The body of the loop of \<open>DivMod\<close>, on the state \<open>(Q.a, R)\<close>; \<open>m\<close> is the field \<open>p\<close>
  of \<open>*this\<close>.\<close>

definition DivMod_body :: "Poly \<Rightarrow> int \<Rightarrow> int \<Rightarrow> int list \<times> Poly \<Rightarrow> int list \<times> Poly" where
  "DivMod_body d m invLead s =
     (case s of (Q, R) \<Rightarrow>
        let coef = (last (a R) * invLead) smod m;
            shift = nat (Degree R - Degree d);
            sub = DivMod_sub m coef shift (a d)
        in (Q[shift := coef], Subtract R (Poly_vec sub m)))"

definition DivMod_cond :: "Poly \<Rightarrow> Poly \<Rightarrow> bool" where
  "DivMod_cond d R \<longleftrightarrow> Degree d \<le> Degree R \<and> \<not> (length (a R) = 1 \<and> a R ! 0 = 0)"

partial_function (option) DivMod_loop ::
    "Poly \<Rightarrow> int \<Rightarrow> int \<Rightarrow> int list \<times> Poly \<Rightarrow> (int list \<times> Poly) option" where
  "DivMod_loop d m invLead s =
     (if DivMod_cond d (snd s) then DivMod_loop d m invLead (DivMod_body d m invLead s)
      else Some s)"

declare DivMod_loop.simps [code]

definition DivMod :: "Poly \<Rightarrow> Poly \<Rightarrow> (error + Poly \<times> Poly) option" where
  "DivMod A d =
     (if Degree d = 0 \<and> a d ! 0 = 0 then Some (Inl DivisionByZeroPolynomial)
      else
        let Q0 = replicate (nat (max 0 (Degree A - Degree d + 1))) 0
        in case InvMod (last (a d)) (p A) of
             Inl e \<Rightarrow> Some (Inl e)
           | Inr invLead \<Rightarrow>
               (case DivMod_loop d (p A) invLead (Q0, A) of
                  None \<Rightarrow> None
                | Some (Q, R) \<Rightarrow> Some (Inr (Normalize \<lparr>p = p A, a = Q\<rparr>, Normalize R))))"

subsection \<open>\<open>GCD\<close> (here \<open>GCD_Poly\<close>: \<open>GCD\<close> is taken in HOL) and \<open>PowX\<close>\<close>

partial_function (option) GCD_Poly :: "Poly \<Rightarrow> Poly \<Rightarrow> (error + Poly) option" where
  "GCD_Poly A B =
     (if \<not> (length (a B) = 1 \<and> a B ! 0 = 0)
      then (case DivMod A B of
              None \<Rightarrow> None
            | Some (Inl e) \<Rightarrow> Some (Inl e)
            | Some (Inr QR) \<Rightarrow> GCD_Poly B (snd QR))
      else Some (Inr (Normalize A)))"

declare GCD_Poly.simps [code]

text \<open>The loop of \<open>PowX\<close> on the state \<open>(k, r, res)\<close>: \<open>k & 1\<close>, then the squaring, then
  \<open>k >>= 1\<close>.\<close>

function PowX_loop :: "int \<Rightarrow> Poly \<Rightarrow> Poly \<Rightarrow> Poly \<Rightarrow> (error + Poly) option" where
  "PowX_loop k r res f =
     (if 0 < k
      then bind_res (if k AND 1 \<noteq> 0
                     then bind_res (DivMod (Multiply res r) f) (\<lambda>QR. Some (Inr (snd QR)))
                     else Some (Inr res))
             (\<lambda>res'. bind_res (DivMod (Multiply r r) f)
                (\<lambda>QR. PowX_loop (drop_bit 1 k) (snd QR) res' f))
      else Some (Inr res))"
  by pat_completeness auto
termination
  by (relation "measure (\<lambda>(k, r, res, f). nat k)") (auto simp: drop_bit_eq_div)

definition PowX :: "int \<Rightarrow> Poly \<Rightarrow> (error + Poly) option" where
  "PowX k f = PowX_loop k (Poly_vec [0, 1] (p f)) (Poly_vec [1] (p f)) f"

subsection \<open>\<open>PowInt\<close> and \<open>PrimeDivisors\<close>\<close>

text \<open>\<open>while (b--) r *= a\<close> in \<open>long long\<close>; the first argument counts the iterations
  left. \<open>PowInt\<close> is called with a degree or a quotient of it, never a negative
  number.\<close>

fun PowInt_loop :: "nat \<Rightarrow> int \<Rightarrow> int \<Rightarrow> int" where
  "PowInt_loop 0 x r = r"
| "PowInt_loop (Suc b) x r = PowInt_loop b x (signed_take_bit 63 (r * x))"

definition PowInt :: "int \<Rightarrow> int \<Rightarrow> int" where
  "PowInt x b = PowInt_loop (nat b) x 1"

text \<open>The inner loop \<open>while (n % i == 0) n /= i\<close> and the outer loop
  \<open>for (i = 2; i * i <= n; i++)\<close> on the state \<open>(i, n, d)\<close>.\<close>

partial_function (option) PrimeDivisors_strip :: "int \<Rightarrow> int \<Rightarrow> int option" where
  "PrimeDivisors_strip n i =
     (if n smod i = 0 then PrimeDivisors_strip (n sdiv i) i else Some n)"

declare PrimeDivisors_strip.simps [code]

partial_function (option) PrimeDivisors_loop :: "int \<Rightarrow> int \<Rightarrow> int list \<Rightarrow> (int \<times> int list) option" where
  "PrimeDivisors_loop i n d =
     (if i * i \<le> n
      then (if n smod i = 0
            then Option.bind (PrimeDivisors_strip n i)
                   (\<lambda>n'. PrimeDivisors_loop (i + 1) n' (d @ [i]))
            else PrimeDivisors_loop (i + 1) n d)
      else Some (n, d))"

declare PrimeDivisors_loop.simps [code]

definition PrimeDivisors :: "int \<Rightarrow> int list option" where
  "PrimeDivisors n =
     map_option (\<lambda>(n', d). if 1 < n' then d @ [n'] else d) (PrimeDivisors_loop 2 n [])"

subsection \<open>\<open>IsIrreducible\<close>\<close>

text \<open>The loop \<open>for (int q : divs)\<close>.\<close>

fun IsIrreducible_loop :: "Poly \<Rightarrow> int \<Rightarrow> int list \<Rightarrow> (error + bool) option" where
  "IsIrreducible_loop f n [] = Some (Inr True)"
| "IsIrreducible_loop f n (q # divs) =
     bind_res (PowX (PowInt (p f) (n sdiv q)) f) (\<lambda>x.
       bind_res (GCD_Poly f (Subtract x (Poly_vec [0, 1] (p f)))) (\<lambda>g.
         if 0 < Degree g then Some (Inr False) else IsIrreducible_loop f n divs))"

definition IsIrreducible :: "Poly \<Rightarrow> (error + bool) option" where
  "IsIrreducible f =
     (let n = Degree f in
      if n \<le> 0 then Some (Inr False)
      else bind_res (PowX (PowInt (p f) n) f) (\<lambda>x.
        let test = Subtract x (Poly_vec [0, 1] (p f)) in
        if \<not> (length (a test) = 1 \<and> a test ! 0 = 0) then Some (Inr False)
        else (case PrimeDivisors n of
                None \<Rightarrow> None
              | Some divs \<Rightarrow> IsIrreducible_loop f n divs)))"

section \<open>The notions of the specification\<close>

text \<open>The three invariants of the data model: every coefficient lies in \<open>[0, p - 1]\<close>; the
  highest coefficient is not zero unless the value is the canonical zero polynomial \<open>[0]\<close>;
  the coefficient sequence is not empty.\<close>

definition invariants :: "Poly \<Rightarrow> bool" where
  "invariants f \<longleftrightarrow>
     (\<forall>x \<in> set (a f). 0 \<le> x \<and> x \<le> p f - 1) \<and>
     (last (a f) \<noteq> 0 \<or> a f = [0]) \<and>
     a f \<noteq> []"

text \<open>The reference procedure of the specification for \<open>Normalize\<close>: reduce every
  coefficient into \<open>[0, p - 1]\<close> first, then drop the highest coefficient while it is zero
  and more than one coefficient remains.\<close>

function spec_drop_zeros :: "int list \<Rightarrow> int list" where
  "spec_drop_zeros xs = (if 1 < length xs \<and> last xs = 0 then spec_drop_zeros (butlast xs) else xs)"
  by pat_completeness auto
termination
  by (relation "measure length") auto

definition Normalize_spec :: "Poly \<Rightarrow> Poly" where
  "Normalize_spec f = f\<lparr>a := spec_drop_zeros (map (\<lambda>x. x mod p f) (a f))\<rparr>"

text \<open>A prime modulus, by trial division.\<close>

definition is_prime :: "int \<Rightarrow> bool" where
  "is_prime m \<longleftrightarrow> 1 < m \<and> (\<forall>d \<in> {2..<m}. \<not> d dvd m)"

text \<open>Irreducibility over \<open>GF(p)\<close> as the glossary of the specification states it: degree at
  least one, and no factorisation into two polynomials of positive degree over the same
  modulus.\<close>

definition irreducible_GF :: "Poly \<Rightarrow> bool" where
  "irreducible_GF f \<longleftrightarrow>
     1 \<le> Degree f \<and>
     \<not> (\<exists>g h. invariants g \<and> invariants h \<and> p g = p f \<and> p h = p f \<and>
            1 \<le> Degree g \<and> 1 \<le> Degree h \<and> Multiply g h = f)"

section \<open>Coefficient functions\<close>

text \<open>The proofs read a coefficient vector as the function from exponents to coefficients
  (zero beyond the end), and a product as the convolution of two such functions. Two
  coefficient functions are congruent modulo \<open>D\<close> (and the prime \<open>m\<close>) when they differ by a
  polynomial multiple of \<open>D\<close>.\<close>

definition coeff :: "int list \<Rightarrow> nat \<Rightarrow> int" where
  "coeff xs i = (if i < length xs then xs ! i else 0)"

definition conv :: "(nat \<Rightarrow> int) \<Rightarrow> (nat \<Rightarrow> int) \<Rightarrow> nat \<Rightarrow> int" where
  "conv F G k = (\<Sum>i\<le>k. F i * G (k - i))"

definition monom :: "nat \<Rightarrow> nat \<Rightarrow> int" where
  "monom n i = (if i = n then 1 else 0)"

definition vanishes :: "int \<Rightarrow> nat \<Rightarrow> (nat \<Rightarrow> int) \<Rightarrow> bool" where
  "vanishes m N F \<longleftrightarrow> (\<forall>i. N \<le> i \<longrightarrow> F i mod m = 0)"

definition cong_mod :: "int \<Rightarrow> (nat \<Rightarrow> int) \<Rightarrow> (nat \<Rightarrow> int) \<Rightarrow> (nat \<Rightarrow> int) \<Rightarrow> bool" where
  "cong_mod m D X Y \<longleftrightarrow>
     (\<exists>Z N. vanishes m N Z \<and> (\<forall>k. X k mod m = (Y k + conv Z D k) mod m))"

text \<open>\<open>R\<close> is reduced with respect to the divisor \<open>d\<close>: it is the zero polynomial or has
  fewer coefficients than \<open>d\<close>.\<close>

definition reduced :: "Poly \<Rightarrow> Poly \<Rightarrow> bool" where
  "reduced d R \<longleftrightarrow> a R = [0] \<or> length (a R) < length (a d)"

text \<open>Every coefficient of the vector lies in \<open>[0, m - 1]\<close>.\<close>

definition canonical :: "int \<Rightarrow> int list \<Rightarrow> bool" where
  "canonical m xs \<longleftrightarrow> (\<forall>x \<in> set xs. 0 \<le> x \<and> x < m)"

text \<open>The state \<open>(r0, r1, s0, s1)\<close> of the loop of \<open>InvMod\<close> for the modulus \<open>m\<close> is
  within bounds: \<open>r0\<close> and \<open>r1\<close> are \<open>int\<close> values, \<open>m\<close> is one, and
  \<open>|s0| * |r1| + |s1| * |r0|\<close> does not exceed \<open>m\<close>.\<close>

definition InvMod_bounded :: "int \<Rightarrow> int \<Rightarrow> int \<Rightarrow> int \<Rightarrow> int \<Rightarrow> bool" where
  "InvMod_bounded m r0 r1 s0 s1 \<longleftrightarrow>
     \<bar>s0\<bar> * \<bar>r1\<bar> + \<bar>s1\<bar> * \<bar>r0\<bar> \<le> m \<and> m < 2 ^ 31 \<and>
     - (2 ^ 31) \<le> r0 \<and> r0 < 2 ^ 31 \<and> - (2 ^ 31) \<le> r1 \<and> r1 < 2 ^ 31"

text \<open>The vectors that \<open>operator +\<close>, \<open>operator -\<close> and \<open>operator *\<close> hand to
  \<open>Normalize\<close>.\<close>

definition pad :: "int list \<Rightarrow> int list \<Rightarrow> int list" where
  "pad xs ts = (if length xs < length ts then resize (length ts) xs else xs)"

definition mul_raw :: "int \<Rightarrow> int list \<Rightarrow> int list \<Rightarrow> int list" where
  "mul_raw m xs ts =
     foldl (\<lambda>r i. foldl (\<lambda>r j. r[i + j := (r ! (i + j) + xs ! i * ts ! j) smod m]) r [0..<length ts])
       (replicate (length xs + length ts - 1) 0) [0..<length xs]"

section \<open>Remainders of C++ and of HOL\<close>

text \<open>The remainder of C++ is congruent to the dividend, so it is zero exactly when the
  mathematical remainder is, and the expression \<open>(x % p + p) % p\<close> of the program is the
  mathematical remainder for every positive \<open>p\<close> and every \<open>x\<close>, negative or not.\<close>

declare Normalize_pop.simps [simp del] spec_drop_zeros.simps [simp del]

lemma diff_mult_mod: "(x - k * m) mod m = x mod (m::int)"
  by algebra

lemma smod_mod_cong: "(x smod m) mod m = x mod (m::int)"
proof -
  have "x smod m = x - x sdiv m * m"
    by (simp add: minus_sdiv_mult_eq_smod)
  then show ?thesis
    by (simp only: diff_mult_mod)
qed

lemma smod_abs_less: "0 < m \<Longrightarrow> \<bar>x smod m\<bar> < (m::int)"
  using smod_int_range [of m x] by auto

lemma smod_red:
  assumes "0 < (m::int)" shows "(x smod m + m) smod m = x mod m"
proof -
  have "0 \<le> x smod m + m"
    using smod_abs_less [OF assms, of x] by linarith
  then have "(x smod m + m) smod m = (x smod m + m) mod m"
    using assms by (simp add: smod_mod_positive)
  also have "\<dots> = x mod m"
    by (simp add: smod_mod_cong)
  finally show ?thesis .
qed

lemma smod_eq_0_iff:
  assumes "0 < (m::int)" shows "x smod m = 0 \<longleftrightarrow> x mod m = 0"
proof
  assume "x smod m = 0"
  then show "x mod m = 0"
    using smod_mod_cong [of x m] by simp
next
  assume "x mod m = 0"
  then have "m dvd x smod m"
    using smod_mod_cong [of x m] by (simp add: dvd_eq_mod_eq_0)
  then show "x smod m = 0"
    using smod_abs_less [OF assms, of x] dvd_imp_le_int [of "x smod m" m] assms
    by auto
qed

text \<open>A value between \<open>-2^31\<close> and \<open>2^31 - 1\<close> is the \<open>int\<close> it is stored in; for a
  modulus up to \<open>2^30\<close> the sum \<open>x % p + p\<close> is such a value.\<close>

lemma int32_eq: "- (2 ^ 31) \<le> x \<Longrightarrow> x < 2 ^ 31 \<Longrightarrow> int32 x = x"
  by (simp add: int32_def signed_take_bit_int_eq_self)

lemma smod_red_int32:
  assumes "0 < (m::int)" and "m \<le> 2 ^ 30" shows "int32 (x smod m + m) smod m = x mod m"
proof -
  have "\<bar>x smod m\<bar> < m"
    by (rule smod_abs_less [OF assms(1)])
  then have "int32 (x smod m + m) = x smod m + m"
    using assms(2) by (intro int32_eq; simp; linarith)
  then show ?thesis
    by (simp add: smod_red [OF assms(1)])
qed

section \<open>\<open>Normalize\<close> and the invariants\<close>

text \<open>The loop of \<open>Normalize\<close> pops coefficients divisible by \<open>p\<close>, so it commutes with
  the reduction; the result of \<open>Normalize\<close> has the coefficients of its argument modulo
  \<open>p\<close>, and it satisfies the invariants unless the argument is empty. Two polynomials that
  satisfy the invariants and have the same coefficients are the same polynomial: this is
  how every equation between polynomials is proved below.\<close>

lemma Normalize_pop_step:
  "1 < length xs \<Longrightarrow> last xs smod m = 0 \<Longrightarrow> Normalize_pop m xs = Normalize_pop m (butlast xs)"
  by (subst Normalize_pop.simps) simp

lemma Normalize_pop_stop:
  "\<not> (1 < length xs \<and> last xs smod m = 0) \<Longrightarrow> Normalize_pop m xs = xs"
  by (subst Normalize_pop.simps) auto

lemma spec_drop_zeros_step:
  "1 < length xs \<Longrightarrow> last xs = 0 \<Longrightarrow> spec_drop_zeros xs = spec_drop_zeros (butlast xs)"
  by (subst spec_drop_zeros.simps) simp

lemma spec_drop_zeros_stop:
  "\<not> (1 < length xs \<and> last xs = 0) \<Longrightarrow> spec_drop_zeros xs = xs"
  by (subst spec_drop_zeros.simps) auto

lemma Normalize_pop_spec:
  "0 < m \<Longrightarrow> map (\<lambda>x. x mod m) (Normalize_pop m xs) = spec_drop_zeros (map (\<lambda>x. x mod m) xs)"
proof (induction m xs rule: Normalize_pop.induct)
  case (1 m xs)
  show ?case
  proof (cases "1 < length xs \<and> last xs smod m = 0")
    case True
    then have ne: "xs \<noteq> []" by auto
    have "last (map (\<lambda>x. x mod m) xs) = 0"
      using True ne 1(2) by (simp add: last_map smod_eq_0_iff)
    then have "spec_drop_zeros (map (\<lambda>x. x mod m) xs)
        = spec_drop_zeros (map (\<lambda>x. x mod m) (butlast xs))"
      using True by (simp add: spec_drop_zeros_step map_butlast)
    then show ?thesis
      using True 1 by (simp add: Normalize_pop_step)
  next
    case False
    then have "\<not> (1 < length (map (\<lambda>x. x mod m) xs) \<and> last (map (\<lambda>x. x mod m) xs) = 0)"
      using 1(2) by (cases "xs = []") (auto simp: last_map smod_eq_0_iff)
    then show ?thesis
      using spec_drop_zeros_stop [of "map (\<lambda>x. x mod m) xs"] Normalize_pop_stop [OF False]
      by simp
  qed
qed

lemma Normalize_eq_spec: "0 < p f \<Longrightarrow> p f \<le> 2 ^ 30 \<Longrightarrow> Normalize f = Normalize_spec f"
  by (simp add: Normalize_def Normalize_spec_def smod_red_int32 Normalize_pop_spec)

lemma coeff_nth: "i < length xs \<Longrightarrow> coeff xs i = xs ! i"
  by (simp add: coeff_def)

lemma coeff_beyond: "length xs \<le> i \<Longrightarrow> coeff xs i = 0"
  by (simp add: coeff_def)

lemma coeff_butlast: "xs \<noteq> [] \<Longrightarrow> coeff (butlast xs) i = (if i = length xs - 1 then 0 else coeff xs i)"
  by (auto simp: coeff_def nth_butlast)

lemma length_Normalize_pop: "length (Normalize_pop m xs) \<le> length xs"
proof (induction m xs rule: Normalize_pop.induct)
  case (1 m xs)
  show ?case
  proof (cases "1 < length xs \<and> last xs smod m = 0")
    case True
    with 1 show ?thesis by (simp add: Normalize_pop_step)
  next
    case False
    then show ?thesis by (simp add: Normalize_pop_stop)
  qed
qed

lemma Normalize_pop_Nil_iff: "Normalize_pop m xs = [] \<longleftrightarrow> xs = []"
proof (induction m xs rule: Normalize_pop.induct)
  case (1 m xs)
  show ?case
  proof (cases "1 < length xs \<and> last xs smod m = 0")
    case True
    then have "butlast xs \<noteq> []" "xs \<noteq> []"
      by (auto simp: butlast_conv_take)
    with 1 True show ?thesis
      by (simp add: Normalize_pop_step)
  next
    case False
    then show ?thesis
      by (simp add: Normalize_pop_stop [OF False])
  qed
qed

lemma Normalize_pop_last:
  "1 < length (Normalize_pop m xs) \<Longrightarrow> last (Normalize_pop m xs) smod m \<noteq> 0"
proof (induction m xs rule: Normalize_pop.induct)
  case (1 m xs)
  show ?case
  proof (cases "1 < length xs \<and> last xs smod m = 0")
    case True
    with 1 show ?thesis
      by (simp add: Normalize_pop_step)
  next
    case False
    with 1(2) show ?thesis
      by (simp add: Normalize_pop_stop [OF False])
  qed
qed

lemma coeff_Normalize_pop:
  "0 < m \<Longrightarrow> coeff (Normalize_pop m xs) i mod m = coeff xs i mod m"
proof (induction m xs rule: Normalize_pop.induct)
  case (1 m xs)
  show ?case
  proof (cases "1 < length xs \<and> last xs smod m = 0")
    case True
    then have ne: "xs \<noteq> []" by auto
    have "last xs mod m = 0"
      using True 1(2) by (simp add: smod_eq_0_iff)
    then have "coeff xs (length xs - 1) mod m = 0"
      using ne by (simp add: coeff_def last_conv_nth)
    then have "coeff (butlast xs) i mod m = coeff xs i mod m"
      using ne by (simp add: coeff_butlast)
    with 1 True show ?thesis
      by (simp add: Normalize_pop_step)
  next
    case False
    then show ?thesis
      by (simp add: Normalize_pop_stop [OF False])
  qed
qed

lemma p_Normalize: "p (Normalize f) = p f"
  by (simp add: Normalize_def)

lemma a_Normalize:
  "0 < p f \<Longrightarrow> p f \<le> 2 ^ 30 \<Longrightarrow>
   a (Normalize f) = map (\<lambda>x. x mod p f) (Normalize_pop (p f) (a f))"
  by (simp add: Normalize_def smod_red_int32)

lemma length_Normalize: "length (a (Normalize f)) \<le> length (a f)"
  by (simp add: Normalize_def length_Normalize_pop)

lemma Normalize_Nil_iff: "a (Normalize f) = [] \<longleftrightarrow> a f = []"
  by (simp add: Normalize_def Normalize_pop_Nil_iff)

lemma coeff_map: "coeff (map h xs) i = (if i < length xs then h (coeff xs i) else 0)"
  by (simp add: coeff_def)

lemma coeff_Normalize:
  assumes "0 < p f" and "p f \<le> 2 ^ 30"
  shows "coeff (a (Normalize f)) i = coeff (a f) i mod p f"
proof (cases "i < length (Normalize_pop (p f) (a f))")
  case True
  then show ?thesis
    using assms coeff_Normalize_pop [OF assms(1), of "a f" i]
    by (simp add: a_Normalize coeff_map)
next
  case False
  then have "coeff (Normalize_pop (p f) (a f)) i = 0"
    by (simp add: coeff_def)
  then have "coeff (a f) i mod p f = 0"
    using coeff_Normalize_pop [OF assms(1), of "a f" i] by simp
  then show ?thesis
    using False assms by (simp add: a_Normalize coeff_map)
qed

lemma canonical_Normalize:
  assumes "0 < p f" and "p f \<le> 2 ^ 30" shows "canonical (p f) (a (Normalize f))"
  unfolding canonical_def a_Normalize [OF assms] using assms(1) by auto

lemma canonical_coeff:
  assumes "canonical m xs" and "0 < m" shows "0 \<le> coeff xs i \<and> coeff xs i < m"
  using assms by (auto simp: canonical_def coeff_def)

lemma invariants_Normalize:
  assumes "0 < p f" and "a f \<noteq> []" and "p f \<le> 2 ^ 30" shows "invariants (Normalize f)"
proof -
  let ?ys = "Normalize_pop (p f) (a f)"
  have ne: "?ys \<noteq> []"
    using assms(2) by (simp add: Normalize_pop_Nil_iff)
  have eq: "a (Normalize f) = map (\<lambda>x. x mod p f) ?ys"
    using assms(1,3) by (rule a_Normalize)
  have rng: "\<forall>x \<in> set (a (Normalize f)). 0 \<le> x \<and> x \<le> p (Normalize f) - 1"
    unfolding eq p_Normalize using assms(1) by auto
  have top: "last (a (Normalize f)) \<noteq> 0 \<or> a (Normalize f) = [0]"
  proof (cases "1 < length ?ys")
    case True
    then have "last ?ys mod p f \<noteq> 0"
      using Normalize_pop_last [of "p f" "a f"] assms(1) by (simp add: smod_eq_0_iff)
    then show ?thesis
      unfolding eq using ne by (simp add: last_map)
  next
    case False
    then obtain y where y: "?ys = [y]"
      using ne by (cases ?ys) auto
    show ?thesis
      unfolding eq y by simp
  qed
  have "a (Normalize f) \<noteq> []"
    unfolding eq using ne by simp
  with rng top show ?thesis
    unfolding invariants_def by blast
qed

lemma invariants_nth:
  "invariants f \<Longrightarrow> i < length (a f) \<Longrightarrow> 0 \<le> a f ! i \<and> a f ! i < p f"
  by (force simp: invariants_def)

lemma invariants_canonical: "invariants f \<Longrightarrow> canonical (p f) (a f)"
  by (auto simp: invariants_def canonical_def)

lemma invariants_coeff_mod:
  assumes "invariants f" and "0 < p f" shows "coeff (a f) i mod p f = coeff (a f) i"
proof (cases "i < length (a f)")
  case True
  then show ?thesis
    using invariants_nth [OF assms(1) True] by (simp add: coeff_def)
next
  case False
  then show ?thesis by (simp add: coeff_def)
qed

lemma invariants_top:
  assumes "invariants f" and "a f \<noteq> [0]"
  shows "coeff (a f) (length (a f) - 1) \<noteq> 0"
  using assms by (auto simp: invariants_def coeff_def last_conv_nth)

lemma invariants_length_eq:
  assumes f: "invariants f" and g: "invariants g"
    and eq: "\<And>i. coeff (a f) i = coeff (a g) i"
  shows "length (a f) \<le> length (a g)"
proof (rule ccontr)
  assume "\<not> length (a f) \<le> length (a g)"
  then have less: "length (a g) < length (a f)" by simp
  have "a g \<noteq> []" using g by (simp add: invariants_def)
  then have "1 < length (a f)" using less by (cases "a g") auto
  then have "a f \<noteq> [0]" by auto
  then have "coeff (a f) (length (a f) - 1) \<noteq> 0"
    by (rule invariants_top [OF f])
  moreover have "coeff (a g) (length (a f) - 1) = 0"
    by (rule coeff_beyond) (use less in simp)
  ultimately show False using eq by simp
qed

lemma invariants_ext:
  fixes f g :: Poly
  assumes f: "invariants f" and g: "invariants g" and pp: "p f = p g"
    and eq: "\<And>i. coeff (a f) i = coeff (a g) i"
  shows "f = g"
proof -
  have len: "length (a f) = length (a g)"
    using invariants_length_eq [OF f g eq] invariants_length_eq [OF g f eq [symmetric]]
    by simp
  have "a f = a g"
  proof (rule nth_equalityI [OF len])
    fix i assume "i < length (a f)"
    then show "a f ! i = a g ! i"
      using eq [of i] len by (simp add: coeff_def)
  qed
  then show ?thesis
    using pp by simp
qed

lemma invariants_all_zero:
  assumes "invariants f" and "\<And>i. coeff (a f) i = 0" shows "a f = [0]"
  using invariants_top [OF assms(1)] assms(2) by auto

lemma length_invariants_bound:
  assumes f: "invariants f" and n: "0 < n" and z: "\<And>i. n \<le> i \<Longrightarrow> coeff (a f) i = 0"
  shows "length (a f) \<le> n"
proof (rule ccontr)
  assume "\<not> length (a f) \<le> n"
  then have less: "n < length (a f)" by simp
  then have "a f \<noteq> [0]" using n by auto
  then have "coeff (a f) (length (a f) - 1) \<noteq> 0"
    by (rule invariants_top [OF f])
  moreover have "n \<le> length (a f) - 1" using less by simp
  ultimately show False using z by blast
qed

lemma Normalize_fixed:
  assumes "invariants f" and "0 < p f" and "p f \<le> 2 ^ 30" shows "Normalize f = f"
proof (rule invariants_ext)
  show "invariants (Normalize f)"
    by (rule invariants_Normalize) (use assms in \<open>auto simp: invariants_def\<close>)
  show "invariants f" by fact
  show "p (Normalize f) = p f" by (simp add: p_Normalize)
  show "coeff (a (Normalize f)) i = coeff (a f) i" for i
    using assms by (simp add: coeff_Normalize invariants_coeff_mod)
qed

lemma Normalize_idem:
  assumes "0 < p f" and "p f \<le> 2 ^ 30" shows "Normalize (Normalize f) = Normalize f"
proof (cases "a f = []")
  case True
  then have "Normalize f = f"
    by (simp add: Normalize_def Normalize_pop_stop)
  then show ?thesis by simp
next
  case False
  have "invariants (Normalize f)"
    by (rule invariants_Normalize [OF assms(1) False assms(2)])
  then show ?thesis
    by (rule Normalize_fixed) (use assms in \<open>simp_all add: p_Normalize\<close>)
qed

lemma invariants_Poly_vec:
  "0 < m \<Longrightarrow> v \<noteq> [] \<Longrightarrow> m \<le> 2 ^ 30 \<Longrightarrow> invariants (Poly_vec v m)"
  unfolding Poly_vec_def by (rule invariants_Normalize) simp_all

section \<open>The coefficients of sums, differences and products\<close>

text \<open>The loops of the three operators, read coefficient by coefficient: the sum and the
  difference of the coefficients, and the convolution for the product, each modulo \<open>p\<close>.
  The modulus of the left operand is positive and at most \<open>2^30\<close>; for the sum and the
  difference the coefficients of both operands lie in \<open>[0, p - 1]\<close>, so that no
  intermediate value leaves \<open>int\<close>.\<close>

lemma length_foldl_update: "length (foldl (\<lambda>r i. r[h r i := g r i]) r0 js) = length r0"
  by (induction js arbitrary: r0) simp_all

lemma foldl_pointwise_nth:
  "n \<le> length r0 \<Longrightarrow> k < length r0 \<Longrightarrow>
   foldl (\<lambda>r i. r[i := h i (r ! i)]) r0 [0..<n] ! k = (if k < n then h k (r0 ! k) else r0 ! k)"
proof (induction n arbitrary: k)
  case 0
  then show ?case by simp
next
  case (Suc n)
  let ?r = "foldl (\<lambda>r i. r[i := h i (r ! i)]) r0 [0..<n]"
  have len: "length ?r = length r0"
    by (rule length_foldl_update)
  have IH: "?r ! j = (if j < n then h j (r0 ! j) else r0 ! j)" if "j < length r0" for j
    using Suc that by simp
  show ?case
    using Suc.prems len IH [of k] IH [of n] by (auto simp: nth_list_update)
qed

lemma coeff_resize: "length xs \<le> n \<Longrightarrow> coeff (resize n xs) i = coeff xs i"
  by (auto simp: coeff_def resize_def nth_append)

lemma length_resize: "length (resize n xs) = n"
  by (simp add: resize_def)

lemma length_pad: "length (pad xs ts) = max (length xs) (length ts)"
  by (simp add: pad_def length_resize)

lemma coeff_pad: "coeff (pad xs ts) i = coeff xs i"
  by (simp add: pad_def coeff_resize)

lemma coeff_pointwise:
  fixes h :: "int \<Rightarrow> int \<Rightarrow> int"
  shows "coeff (foldl (\<lambda>r i. r[i := h (r ! i) (ts ! i)]) (pad xs ts) [0..<length ts]) k
     = (if k < length ts then h (coeff xs k) (coeff ts k) else coeff xs k)"
proof (cases "k < length (pad xs ts)")
  case True
  have "length ts \<le> length (pad xs ts)"
    by (simp add: length_pad)
  from foldl_pointwise_nth [OF this True, of "\<lambda>i x. h x (ts ! i)"]
  show ?thesis
    using True coeff_pad [of xs ts k]
    by (simp add: coeff_def length_foldl_update)
next
  case False
  then show ?thesis
    by (auto simp: coeff_def length_foldl_update length_pad)
qed

lemma length_Add_raw:
  "length (foldl (\<lambda>r i. r[i := h (r ! i) (ts ! i)]) (pad xs ts) [0..<length ts]) = max (length xs) (length ts)"
  by (simp add: length_foldl_update length_pad)

lemma p_Add: "p (Add f t) = p f"
  by (simp add: Add_def Let_def p_Normalize)

lemma p_Subtract: "p (Subtract f t) = p f"
  by (simp add: Subtract_def Let_def p_Normalize)

lemma p_Multiply: "p (Multiply f t) = p f"
  by (simp add: Multiply_def Let_def p_Normalize)

lemma coeff_Add:
  assumes "0 < p f" and "p f \<le> 2 ^ 30"
    and "canonical (p f) (a f)" and "canonical (p f) (a t)"
  shows "coeff (a (Add f t)) k = (coeff (a f) k + coeff (a t) k) mod p f"
proof -
  have rng: "0 \<le> coeff (a f) k \<and> coeff (a f) k < p f" "0 \<le> coeff (a t) k \<and> coeff (a t) k < p f"
    using assms by (simp_all add: canonical_coeff)
  have exact: "int32 (coeff (a f) k + coeff (a t) k) = coeff (a f) k + coeff (a t) k"
    using rng assms(2) by (intro int32_eq; simp; linarith)
  have "coeff (a (Add f t)) k
      = coeff (foldl (\<lambda>r i. r[i := int32 (r ! i + a t ! i) smod p f]) (pad (a f) (a t)) [0..<length (a t)]) k mod p f"
    using assms(1,2) by (simp add: Add_def Let_def coeff_Normalize pad_def)
  also have "\<dots> = (if k < length (a t) then int32 (coeff (a f) k + coeff (a t) k) smod p f else coeff (a f) k) mod p f"
    by (subst coeff_pointwise [where h = "\<lambda>x y. int32 (x + y) smod p f"]) simp_all
  also have "\<dots> = (coeff (a f) k + coeff (a t) k) mod p f"
    by (simp add: exact smod_mod_cong coeff_beyond)
  finally show ?thesis .
qed

lemma coeff_Subtract:
  assumes "0 < p f" and "p f \<le> 2 ^ 30"
    and "canonical (p f) (a f)" and "canonical (p f) (a t)"
  shows "coeff (a (Subtract f t)) k = (coeff (a f) k - coeff (a t) k) mod p f"
proof -
  have rng: "0 \<le> coeff (a f) k \<and> coeff (a f) k < p f" "0 \<le> coeff (a t) k \<and> coeff (a t) k < p f"
    using assms by (simp_all add: canonical_coeff)
  have "int32 (coeff (a f) k - coeff (a t) k) = coeff (a f) k - coeff (a t) k"
    using rng assms(2) by (intro int32_eq; simp; linarith)
  moreover have "int32 (coeff (a f) k - coeff (a t) k + p f) = coeff (a f) k - coeff (a t) k + p f"
    using rng assms(2) by (intro int32_eq; simp; linarith)
  ultimately have exact: "int32 (int32 (coeff (a f) k - coeff (a t) k) + p f)
      = coeff (a f) k - coeff (a t) k + p f"
    by simp
  have "coeff (a (Subtract f t)) k
      = coeff (foldl (\<lambda>r i. r[i := int32 (int32 (r ! i - a t ! i) + p f) smod p f])
          (pad (a f) (a t)) [0..<length (a t)]) k mod p f"
    using assms(1,2) by (simp add: Subtract_def Let_def coeff_Normalize pad_def)
  also have "\<dots> = (if k < length (a t)
        then int32 (int32 (coeff (a f) k - coeff (a t) k) + p f) smod p f else coeff (a f) k) mod p f"
    by (subst coeff_pointwise [where h = "\<lambda>x y. int32 (int32 (x - y) + p f) smod p f"]) simp_all
  also have "\<dots> = (coeff (a f) k - coeff (a t) k) mod p f"
    by (simp add: exact smod_mod_cong coeff_beyond)
  finally show ?thesis .
qed

lemma invariants_Add:
  assumes "0 < p f" and "a f \<noteq> [] \<or> a t \<noteq> []" and "p f \<le> 2 ^ 30"
  shows "invariants (Add f t)"
proof -
  have "foldl (\<lambda>r i. r[i := int32 (r ! i + a t ! i) smod p f]) (pad (a f) (a t)) [0..<length (a t)] \<noteq> []"
    using assms(2) length_Add_raw [of "\<lambda>x y. int32 (x + y) smod p f" "a t" "a f"]
    by (metis length_0_conv max_nat.eq_neutr_iff)
  then show ?thesis
    using assms(1,3) unfolding Add_def Let_def pad_def [symmetric]
    by (intro invariants_Normalize) simp_all
qed

lemma invariants_Subtract:
  assumes "0 < p f" and "a f \<noteq> [] \<or> a t \<noteq> []" and "p f \<le> 2 ^ 30"
  shows "invariants (Subtract f t)"
proof -
  have "foldl (\<lambda>r i. r[i := int32 (int32 (r ! i - a t ! i) + p f) smod p f])
      (pad (a f) (a t)) [0..<length (a t)] \<noteq> []"
    using assms(2) length_Add_raw [of "\<lambda>x y. int32 (int32 (x - y) + p f) smod p f" "a t" "a f"]
    by (metis length_0_conv max_nat.eq_neutr_iff)
  then show ?thesis
    using assms(1,3) unfolding Subtract_def Let_def pad_def [symmetric]
    by (intro invariants_Normalize) simp_all
qed

lemma Multiply_inner_nth:
  "i + n \<le> length r \<Longrightarrow> k < length r \<Longrightarrow>
   foldl (\<lambda>r j. r[i + j := (r ! (i + j) + c * ts ! j) smod m]) r [0..<n] ! k =
     (if i \<le> k \<and> k < i + n then (r ! k + c * ts ! (k - i)) smod m else r ! k)"
proof (induction n arbitrary: k)
  case 0
  then show ?case by auto
next
  case (Suc n)
  let ?r = "foldl (\<lambda>r j. r[i + j := (r ! (i + j) + c * ts ! j) smod m]) r [0..<n]"
  have len: "length ?r = length r"
    by (rule length_foldl_update)
  have IH: "?r ! j = (if i \<le> j \<and> j < i + n then (r ! j + c * ts ! (j - i)) smod m else r ! j)"
    if "j < length r" for j
    using Suc that by simp
  show ?case
    using Suc.prems len IH [of k] IH [of "i + n"] by (auto simp: nth_list_update)
qed

lemma Multiply_outer_nth:
  fixes xs ts :: "int list"
  assumes len: "length r0 = length xs + length ts - 1"
  shows "n \<le> length xs \<Longrightarrow> k < length r0 \<Longrightarrow>
     (foldl (\<lambda>r i. foldl (\<lambda>r j. r[i + j := (r ! (i + j) + xs ! i * ts ! j) smod m]) r [0..<length ts])
        r0 [0..<n] ! k) mod m
     = (r0 ! k + (\<Sum>i<n. if i \<le> k then coeff xs i * coeff ts (k - i) else 0)) mod m"
proof (induction n arbitrary: k)
  case 0
  then show ?case by simp
next
  case (Suc n)
  let ?body = "\<lambda>r i. foldl (\<lambda>r j. r[i + j := (r ! (i + j) + xs ! i * ts ! j) smod m]) r [0..<length ts]"
  let ?r = "foldl ?body r0 [0..<n]"
  have lr: "length ?r = length r0"
    by (induction n) (simp_all add: length_foldl_update)
  have fit: "n + length ts \<le> length ?r"
    using Suc.prems len lr by simp
  have kk: "k < length ?r"
    using Suc.prems lr by simp
  have step: "foldl ?body r0 [0..<Suc n] ! k
      = (if n \<le> k \<and> k < n + length ts then (?r ! k + xs ! n * ts ! (k - n)) smod m else ?r ! k)"
    using Multiply_inner_nth [OF fit kk, of "xs ! n" ts m] by simp
  have IH: "?r ! k mod m = (r0 ! k + (\<Sum>i<n. if i \<le> k then coeff xs i * coeff ts (k - i) else 0)) mod m"
    using Suc by simp
  have tm: "(if n \<le> k then coeff xs n * coeff ts (k - n) else 0)
      = (if n \<le> k \<and> k < n + length ts then xs ! n * ts ! (k - n) else 0)"
    using Suc.prems by (auto simp: coeff_def)
  let ?T = "\<lambda>i. if i \<le> k then coeff xs i * coeff ts (k - i) else 0"
  have "foldl ?body r0 [0..<Suc n] ! k mod m = (?r ! k + ?T n) mod m"
    unfolding step tm by (simp add: smod_mod_cong)
  also have "\<dots> = (?r ! k mod m + ?T n) mod m"
    by (simp only: mod_add_left_eq)
  also have "\<dots> = ((r0 ! k + (\<Sum>i<n. ?T i)) mod m + ?T n) mod m"
    by (simp only: IH)
  also have "\<dots> = (r0 ! k + ((\<Sum>i<n. ?T i) + ?T n)) mod m"
    by (simp only: mod_add_left_eq add.assoc)
  also have "(\<Sum>i<n. ?T i) + ?T n = (\<Sum>i<Suc n. ?T i)"
    by simp
  finally show ?case .
qed

lemma conv_beyond:
  assumes "\<And>i. n1 \<le> i \<Longrightarrow> F i = 0" and "\<And>j. n2 \<le> j \<Longrightarrow> G j = 0" and "n1 + n2 \<le> Suc k"
  shows "conv F G k = 0"
  unfolding conv_def
proof (rule sum.neutral, rule ballI)
  fix i assume "i \<in> {..k}"
  show "F i * G (k - i) = 0"
  proof (cases "n1 \<le> i")
    case True
    then show ?thesis by (simp add: assms(1))
  next
    case False
    then have "n2 \<le> k - i" using assms(3) by simp
    then show ?thesis by (simp add: assms(2))
  qed
qed

lemma conv_coeff_restrict:
  "(\<Sum>i<length xs. if i \<le> k then coeff xs i * G (k - i) else 0) = conv (coeff xs) G k"
proof -
  have "(\<Sum>i<length xs. if i \<le> k then coeff xs i * G (k - i) else 0)
      = (\<Sum>i\<in>{..<length xs} \<inter> {..k}. coeff xs i * G (k - i))"
    by (subst sum.inter_restrict) (simp_all cong: if_cong)
  also have "\<dots> = (\<Sum>i\<in>{..k}. coeff xs i * G (k - i))"
    by (rule sum.mono_neutral_left) (auto simp: coeff_def)
  finally show ?thesis
    by (simp add: conv_def)
qed

lemma Multiply_raw: "Multiply f t = Normalize \<lparr>p = p f, a = mul_raw (p f) (a f) (a t)\<rparr>"
  by (simp add: Multiply_def mul_raw_def)

lemma length_mul_raw: "length (mul_raw m xs ts) = length xs + length ts - 1"
proof -
  have "length (foldl (\<lambda>r i. foldl (\<lambda>r j. r[i + j := (r ! (i + j) + xs ! i * ts ! j) smod m]) r [0..<length ts])
        r0 js) = length r0" for r0 js
    by (induction js arbitrary: r0) (simp_all add: length_foldl_update)
  then show ?thesis by (simp add: mul_raw_def)
qed

lemma coeff_mul_raw: "coeff (mul_raw m xs ts) k mod m = conv (coeff xs) (coeff ts) k mod m"
proof (cases "k < length xs + length ts - 1")
  case True
  have "mul_raw m xs ts ! k mod m
      = (replicate (length xs + length ts - 1) 0 ! k
          + (\<Sum>i<length xs. if i \<le> k then coeff xs i * coeff ts (k - i) else 0)) mod m"
    unfolding mul_raw_def by (rule Multiply_outer_nth) (use True in simp_all)
  moreover have "coeff (mul_raw m xs ts) k = mul_raw m xs ts ! k"
    by (rule coeff_nth) (use True in \<open>simp add: length_mul_raw\<close>)
  ultimately show ?thesis
    using True by (simp add: conv_coeff_restrict)
next
  case False
  have "conv (coeff xs) (coeff ts) k = 0"
    by (rule conv_beyond [of "length xs" _ "length ts"]) (use False in \<open>simp_all add: coeff_def\<close>)
  moreover have "coeff (mul_raw m xs ts) k = 0"
    by (rule coeff_beyond) (use False in \<open>simp add: length_mul_raw\<close>)
  ultimately show ?thesis by simp
qed

lemma coeff_Multiply:
  assumes "0 < p f" and "p f \<le> 2 ^ 30"
  shows "coeff (a (Multiply f t)) k = conv (coeff (a f)) (coeff (a t)) k mod p f"
  using assms by (simp add: Multiply_raw coeff_Normalize coeff_mul_raw)

lemma canonical_Multiply:
  assumes "0 < p f" and "p f \<le> 2 ^ 30" shows "canonical (p f) (a (Multiply f t))"
  using canonical_Normalize [of "\<lparr>p = p f, a = mul_raw (p f) (a f) (a t)\<rparr>"] assms
  by (simp add: Multiply_raw)

lemma invariants_Multiply:
  assumes "0 < p f" and "a f \<noteq> []" and "a t \<noteq> []" and "p f \<le> 2 ^ 30"
  shows "invariants (Multiply f t)"
proof -
  have "0 < length (mul_raw (p f) (a f) (a t))"
    using assms(2,3) by (cases "a f"; cases "a t") (simp_all add: length_mul_raw)
  then show ?thesis
    using assms(1,4) unfolding Multiply_raw
    by (intro invariants_Normalize) simp_all
qed

section \<open>\<open>InvMod\<close> and prime moduli\<close>

text \<open>For an \<open>int\<close> argument and a modulus below \<open>2^31\<close> the loop of \<open>InvMod\<close> never
  leaves \<open>int\<close>. It keeps the greatest common divisor of \<open>r0\<close> and \<open>r1\<close> and the
  congruences \<open>r0 = s0 * x\<close> and \<open>r1 = s1 * x\<close> modulo \<open>m\<close>; with non-negative arguments all
  remainders are non-negative. Over a prime modulus every coefficient between \<open>1\<close> and
  \<open>p - 1\<close> has an inverse, and a product is divisible by \<open>p\<close> only if a factor is.\<close>

declare InvMod_loop.simps [simp del]

lemma mod_lin_cong:
  "a1 mod m = a2 mod m \<Longrightarrow> b1 mod m = b2 mod m \<Longrightarrow> (a1 - q * b1) mod m = (a2 - q * b2) mod (m::int)"
  by (intro mod_diff_cong mod_mult_cong refl)

lemma InvMod_loop_step:
  "r1 \<noteq> 0 \<Longrightarrow> InvMod_loop r0 r1 s0 s1
     = InvMod_loop r1 (int32 (r0 - int32 (r0 sdiv r1 * r1))) s1 (int32 (s0 - int32 (r0 sdiv r1 * s1)))"
  by (subst InvMod_loop.simps) (simp add: Let_def)

lemma InvMod_loop_stop: "InvMod_loop r0 0 s0 s1 = (r0, s0)"
  by (subst InvMod_loop.simps) simp

lemma gcd_sub_mult: "gcd r1 (r0 - q * r1) = gcd r0 (r1::int)"
proof -
  have "r0 - q * r1 = (- q) * r1 + r0"
    by simp
  then have "gcd r1 (r0 - q * r1) = gcd r1 r0"
    by (simp only: gcd_add_mult)
  then show ?thesis
    by (simp add: gcd.commute)
qed

lemma smod_eq_diff: "r0 smod r1 = r0 - r0 sdiv r1 * (r1::int)"
  by (simp add: minus_sdiv_mult_eq_smod)

text \<open>The quotient and the remainder of C++ in absolute values, and the remainder between
  zero and the dividend.\<close>

lemma sdiv_smod_abs:
  fixes r0 r1 :: int
  assumes "r1 \<noteq> 0"
  shows "\<bar>r0 sdiv r1\<bar> * \<bar>r1\<bar> + \<bar>r0 smod r1\<bar> = \<bar>r0\<bar>"
proof (cases "r0 = 0")
  case True
  then show ?thesis by simp
next
  case False
  have "0 \<le> \<bar>r0\<bar> div \<bar>r1\<bar>"
    using assms by (simp add: pos_imp_zdiv_nonneg_iff)
  then have "\<bar>r0 sdiv r1\<bar> = \<bar>r0\<bar> div \<bar>r1\<bar>"
    using False assms by (simp add: signed_divide_int_def abs_mult abs_sgn_eq)
  moreover have "0 \<le> \<bar>r0\<bar> mod \<bar>r1\<bar>"
    using assms by simp
  then have "\<bar>r0 smod r1\<bar> = \<bar>r0\<bar> mod \<bar>r1\<bar>"
    using False by (simp add: signed_modulo_int_def abs_mult abs_sgn_eq)
  ultimately show ?thesis
    by simp
qed

lemma smod_between:
  fixes r0 r1 :: int
  assumes "r1 \<noteq> 0"
  shows "(0 \<le> r0 \<longrightarrow> 0 \<le> r0 smod r1 \<and> r0 smod r1 \<le> r0) \<and>
         (r0 \<le> 0 \<longrightarrow> r0 \<le> r0 smod r1 \<and> r0 smod r1 \<le> 0)"
proof -
  have "\<bar>r0 smod r1\<bar> \<le> \<bar>r0\<bar>"
    using sdiv_smod_abs [OF assms, of r0]
    by (smt (verit) mult_nonneg_nonneg abs_ge_zero)
  moreover have "0 \<le> r0 \<Longrightarrow> 0 \<le> r0 smod r1" "r0 \<le> 0 \<Longrightarrow> r0 smod r1 \<le> 0"
    using assms smod_int_compares [of r0 r1] by (cases "0 < r1"; simp)+
  ultimately show ?thesis
    by auto
qed

text \<open>One iteration of the loop computes in \<open>int\<close> what it computes in the integers: the
  products and differences stay within \<open>m\<close> in absolute value, because
  \<open>|s0| * |r1| + |s1| * |r0|\<close> does not grow.\<close>

lemma InvMod_step_exact:
  fixes r0 r1 s0 s1 m :: int
  assumes K: "\<bar>s0\<bar> * \<bar>r1\<bar> + \<bar>s1\<bar> * \<bar>r0\<bar> \<le> m" and m: "m < 2 ^ 31"
    and r: "- (2 ^ 31) \<le> r0" "r0 < 2 ^ 31" "- (2 ^ 31) \<le> r1" "r1 < 2 ^ 31"
    and nz: "r1 \<noteq> 0"
  shows "int32 (r0 - int32 (r0 sdiv r1 * r1)) = r0 smod r1"
    and "int32 (s0 - int32 (r0 sdiv r1 * s1)) = s0 - r0 sdiv r1 * s1"
    and "\<bar>s1\<bar> * \<bar>r0 smod r1\<bar> + \<bar>s0 - r0 sdiv r1 * s1\<bar> * \<bar>r1\<bar> \<le> m"
    and "- (2 ^ 31) \<le> r0 smod r1" and "r0 smod r1 < 2 ^ 31"
proof -
  define q where "q = r0 sdiv r1"
  define R where "R = r0 smod r1"
  define Q where "Q = \<bar>q\<bar>"
  define al where "al = \<bar>s0\<bar>"
  define be where "be = \<bar>s1\<bar>"
  define a0 where "a0 = \<bar>r0\<bar>"
  define a1 where "a1 = \<bar>r1\<bar>"
  have nn: "0 \<le> Q" "0 \<le> al" "0 \<le> be" "0 \<le> a0" "1 \<le> a1"
    using nz by (simp_all add: Q_def al_def be_def a0_def a1_def)
  have dec: "Q * a1 + \<bar>R\<bar> = a0"
    unfolding Q_def a1_def a0_def q_def R_def by (rule sdiv_smod_abs [OF nz])
  have K': "al * a1 + be * a0 \<le> m"
    using K by (simp add: al_def be_def a0_def a1_def)
  have qr: "q * r1 = r0 - R"
    using minus_sdiv_mult_eq_smod [of r0 r1] by (simp add: q_def R_def)
  have Rb: "(0 \<le> r0 \<longrightarrow> 0 \<le> R \<and> R \<le> r0) \<and> (r0 \<le> 0 \<longrightarrow> r0 \<le> R \<and> R \<le> 0)"
    unfolding R_def by (rule smod_between [OF nz])
  have "- (2 ^ 31) \<le> q * r1" "q * r1 < 2 ^ 31"
    using Rb r(1,2) unfolding qr by linarith+
  then have e1: "int32 (q * r1) = q * r1"
    by (rule int32_eq)
  show R1: "- (2 ^ 31) \<le> r0 smod r1" and R2: "r0 smod r1 < 2 ^ 31"
    using Rb r(1,2) unfolding R_def by linarith+
  have "int32 (r0 - q * r1) = r0 - q * r1"
    using R1 R2 unfolding qr R_def by (intro int32_eq) simp_all
  then show "int32 (r0 - int32 (r0 sdiv r1 * r1)) = r0 smod r1"
    using e1 qr by (simp add: q_def R_def)
  have "0 \<le> al * a1"
    using nn by simp
  then have b0: "be * a0 \<le> m"
    using K' by linarith
  have Qa: "Q * a1 \<le> a0"
    using dec by linarith
  have "0 \<le> Q * be"
    using nn by simp
  then have "Q * be \<le> (Q * be) * a1"
    using mult_left_mono [of 1 a1 "Q * be"] nn(5) by simp
  also have "\<dots> = be * (Q * a1)"
    by (simp add: ac_simps)
  also have "\<dots> \<le> be * a0"
    using Qa nn(3) by (rule mult_left_mono)
  finally have qb: "Q * be \<le> m"
    using b0 by linarith
  have "\<bar>q * s1\<bar> = Q * be"
    by (simp add: Q_def be_def abs_mult)
  then have "\<bar>q * s1\<bar> \<le> m"
    using qb by simp
  then have "- (2 ^ 31) \<le> q * s1" "q * s1 < 2 ^ 31"
    using m by linarith+
  then have e2: "int32 (q * s1) = q * s1"
    by (rule int32_eq)
  have tri: "\<bar>s0 - q * s1\<bar> \<le> al + Q * be"
    using abs_triangle_ineq4 [of s0 "q * s1"] by (simp add: al_def Q_def be_def abs_mult)
  have sum: "(al + Q * be) * a1 + be * \<bar>R\<bar> = al * a1 + be * a0"
    using dec by (simp add: algebra_simps) (metis distrib_left mult.commute mult.left_commute)
  have "0 \<le> be * \<bar>R\<bar>"
    using nn by simp
  then have big: "(al + Q * be) * a1 \<le> m"
    using sum K' by linarith
  have "0 \<le> al + Q * be"
    using nn by simp
  then have "al + Q * be \<le> (al + Q * be) * a1"
    using mult_left_mono [of 1 a1 "al + Q * be"] nn(5) by simp
  then have "\<bar>s0 - q * s1\<bar> \<le> m"
    using tri big by linarith
  then have "- (2 ^ 31) \<le> s0 - q * s1" "s0 - q * s1 < 2 ^ 31"
    using m by linarith+
  then have "int32 (s0 - q * s1) = s0 - q * s1"
    by (rule int32_eq)
  then show "int32 (s0 - int32 (r0 sdiv r1 * s1)) = s0 - r0 sdiv r1 * s1"
    using e2 by (simp add: q_def)
  have "\<bar>s0 - q * s1\<bar> * a1 \<le> (al + Q * be) * a1"
    using tri nn(5) by (intro mult_right_mono) simp_all
  then have "be * \<bar>R\<bar> + \<bar>s0 - q * s1\<bar> * a1 \<le> m"
    using sum K' by linarith
  then show "\<bar>s1\<bar> * \<bar>r0 smod r1\<bar> + \<bar>s0 - r0 sdiv r1 * s1\<bar> * \<bar>r1\<bar> \<le> m"
    by (simp add: be_def R_def q_def a1_def)
qed

lemma InvMod_bounded_step:
  assumes "InvMod_bounded m r0 r1 s0 s1" and "r1 \<noteq> 0"
  shows "int32 (r0 - int32 (r0 sdiv r1 * r1)) = r0 smod r1"
    and "int32 (s0 - int32 (r0 sdiv r1 * s1)) = s0 - r0 sdiv r1 * s1"
    and "InvMod_bounded m r1 (r0 smod r1) s1 (s0 - r0 sdiv r1 * s1)"
proof -
  have K: "\<bar>s0\<bar> * \<bar>r1\<bar> + \<bar>s1\<bar> * \<bar>r0\<bar> \<le> m" and m: "m < 2 ^ 31"
    and r: "- (2 ^ 31) \<le> r0" "r0 < 2 ^ 31" "- (2 ^ 31) \<le> r1" "r1 < 2 ^ 31"
    using assms(1) by (simp_all add: InvMod_bounded_def)
  note st = InvMod_step_exact [OF K m r assms(2)]
  show "int32 (r0 - int32 (r0 sdiv r1 * r1)) = r0 smod r1"
    by (rule st(1))
  show "int32 (s0 - int32 (r0 sdiv r1 * s1)) = s0 - r0 sdiv r1 * s1"
    by (rule st(2))
  show "InvMod_bounded m r1 (r0 smod r1) s1 (s0 - r0 sdiv r1 * s1)"
    unfolding InvMod_bounded_def using st(3,4,5) m r(3,4) by simp
qed

lemma InvMod_bounded_init:
  "0 < m \<Longrightarrow> m \<le> 2 ^ 30 \<Longrightarrow> - (2 ^ 31) \<le> x \<Longrightarrow> x < 2 ^ 31 \<Longrightarrow> InvMod_bounded m x m 1 0"
  by (simp add: InvMod_bounded_def)

lemma InvMod_loop_step_exact:
  assumes "InvMod_bounded m r0 r1 s0 s1" and "r1 \<noteq> 0"
  shows "InvMod_loop r0 r1 s0 s1 = InvMod_loop r1 (r0 smod r1) s1 (s0 - r0 sdiv r1 * s1)"
  by (simp add: InvMod_loop_step [OF assms(2)] InvMod_bounded_step(1,2) [OF assms])

text \<open>The loop ends with plus or minus the greatest common divisor in \<open>r0\<close>.\<close>

lemma InvMod_loop_gcd:
  "InvMod_bounded m r0 r1 s0 s1 \<Longrightarrow> \<bar>fst (InvMod_loop r0 r1 s0 s1)\<bar> = gcd r0 r1"
proof (induction r0 r1 s0 s1 rule: InvMod_loop.induct)
  case (1 r0 r1 s0 s1)
  show ?case
  proof (cases "r1 = 0")
    case True
    then show ?thesis by (simp add: InvMod_loop_stop)
  next
    case False
    note st = InvMod_bounded_step [OF "1.prems" False]
    have "\<bar>fst (InvMod_loop r1 (r0 smod r1) s1 (s0 - r0 sdiv r1 * s1))\<bar> = gcd r1 (r0 smod r1)"
      using "1.IH" [OF False refl] st by simp
    also have "gcd r1 (r0 smod r1) = gcd r0 r1"
      unfolding smod_eq_diff by (rule gcd_sub_mult)
    finally show ?thesis
      by (simp add: InvMod_loop_step_exact [OF "1.prems" False])
  qed
qed

lemma InvMod_loop_cong:
  fixes x m :: int
  shows "InvMod_bounded m r0 r1 s0 s1 \<Longrightarrow>
     r0 mod m = (s0 * x) mod m \<Longrightarrow> r1 mod m = (s1 * x) mod m \<Longrightarrow>
     fst (InvMod_loop r0 r1 s0 s1) mod m = (snd (InvMod_loop r0 r1 s0 s1) * x) mod m"
proof (induction r0 r1 s0 s1 rule: InvMod_loop.induct)
  case (1 r0 r1 s0 s1)
  show ?case
  proof (cases "r1 = 0")
    case True
    then show ?thesis using "1.prems" by (simp add: InvMod_loop_stop)
  next
    case False
    let ?q = "r0 sdiv r1"
    note st = InvMod_bounded_step [OF "1.prems"(1) False]
    have "(r0 - ?q * r1) mod m = (s0 * x - ?q * (s1 * x)) mod m"
      using "1.prems"(2,3) by (rule mod_lin_cong)
    then have "(r0 smod r1) mod m = ((s0 - ?q * s1) * x) mod m"
      by (simp add: algebra_simps smod_eq_diff)
    then have "fst (InvMod_loop r1 (r0 smod r1) s1 (s0 - ?q * s1)) mod m
        = (snd (InvMod_loop r1 (r0 smod r1) s1 (s0 - ?q * s1)) * x) mod m"
      using "1.IH" [OF False refl] st "1.prems"(3) by simp
    then show ?thesis
      by (simp add: InvMod_loop_step_exact [OF "1.prems"(1) False])
  qed
qed

lemma InvMod_loop_nonneg:
  "InvMod_bounded m r0 r1 s0 s1 \<Longrightarrow> 0 \<le> r0 \<Longrightarrow> 0 \<le> r1 \<Longrightarrow>
   0 \<le> fst (InvMod_loop r0 r1 s0 s1)"
proof (induction r0 r1 s0 s1 rule: InvMod_loop.induct)
  case (1 r0 r1 s0 s1)
  show ?case
  proof (cases "r1 = 0")
    case True
    then show ?thesis using "1.prems" by (simp add: InvMod_loop_stop)
  next
    case False
    note st = InvMod_bounded_step [OF "1.prems"(1) False]
    have "0 \<le> r0 smod r1"
      using "1.prems" False by (simp add: smod_int_compares)
    then have "0 \<le> fst (InvMod_loop r1 (r0 smod r1) s1 (s0 - r0 sdiv r1 * s1))"
      using "1.IH" [OF False refl] st "1.prems"(3) by simp
    then show ?thesis
      by (simp add: InvMod_loop_step_exact [OF "1.prems"(1) False])
  qed
qed

lemma InvMod_fails:
  assumes "gcd x m \<noteq> 1" and "0 < m" and "m \<le> 2 ^ 30" and "- (2 ^ 31) \<le> x" and "x < 2 ^ 31"
  shows "InvMod x m = Inl NotInvertible"
  using InvMod_loop_gcd [OF InvMod_bounded_init [OF assms(2-5)]] assms(1)
  by (auto simp: InvMod_def split_beta)

lemma InvMod_sound:
  assumes "1 < m" and "InvMod x m = Inr r"
    and "m \<le> 2 ^ 30" and "- (2 ^ 31) \<le> x" and "x < 2 ^ 31"
  shows "0 \<le> r \<and> r < m \<and> (x * r) mod m = 1"
proof -
  let ?s = "snd (InvMod_loop x m 1 0)"
  have m0: "0 < m" using assms(1) by simp
  have bd: "InvMod_bounded m x m 1 0"
    by (rule InvMod_bounded_init [OF m0 assms(3-5)])
  have one: "fst (InvMod_loop x m 1 0) = 1" and r: "r = ?s mod m"
    using assms(2) m0 assms(3)
    by (auto simp: InvMod_def split_beta smod_red_int32 split: if_splits)
  have "fst (InvMod_loop x m 1 0) mod m = (?s * x) mod m"
    by (rule InvMod_loop_cong [OF bd]) simp_all
  then have "(?s * x) mod m = 1"
    using one assms(1) by simp
  then have "(x * (?s mod m)) mod m = 1"
    by (simp add: mod_mult_right_eq mult.commute)
  then show ?thesis
    using assms(1) by (simp add: r)
qed

lemma InvMod_returns:
  assumes "0 \<le> x" and "0 < m" and "gcd x m = 1" and "m \<le> 2 ^ 30" and "x < 2 ^ 31"
  shows "\<exists>r. InvMod x m = Inr r"
proof -
  have bd: "InvMod_bounded m x m 1 0"
    by (rule InvMod_bounded_init) (use assms in simp_all)
  have "0 \<le> fst (InvMod_loop x m 1 0)"
    by (rule InvMod_loop_nonneg [OF bd]) (use assms in simp_all)
  then have "fst (InvMod_loop x m 1 0) = 1"
    using InvMod_loop_gcd [OF bd] assms(3) by simp
  then show ?thesis
    by (simp add: InvMod_def split_beta)
qed

lemma is_prime_coprime:
  assumes "is_prime m" and "\<not> m dvd x" shows "gcd x m = 1"
proof -
  let ?g = "gcd x m"
  have m: "1 < m" using assms(1) by (simp add: is_prime_def)
  have g0: "0 \<le> ?g" by simp
  have gm: "?g dvd m" by simp
  have "?g \<noteq> 0" using m by simp
  have "?g \<le> m" using gm m by (simp add: zdvd_imp_le)
  moreover have "?g \<noteq> m" using assms(2) by (metis gcd_dvd1)
  ultimately have "?g < m" by simp
  have "\<not> 2 \<le> ?g"
  proof
    assume "2 \<le> ?g"
    then have "?g \<in> {2..<m}" using \<open>?g < m\<close> by simp
    then show False using assms(1) gm by (auto simp: is_prime_def)
  qed
  then show ?thesis
    using g0 \<open>?g \<noteq> 0\<close> by linarith
qed

lemma is_prime_dvd_mult:
  assumes "is_prime m" and "m dvd x * y" shows "m dvd x \<or> m dvd y"
proof (cases "m dvd x")
  case True
  then show ?thesis by simp
next
  case False
  then have "coprime m x"
    using is_prime_coprime [OF assms(1) False] by (simp add: coprime_iff_gcd_eq_1 gcd.commute)
  then show ?thesis
    using assms(2) by (simp add: coprime_dvd_mult_right_iff)
qed

lemma is_prime_mult_mod:
  assumes "is_prime m" and "(x * y) mod m = 0" shows "x mod m = 0 \<or> y mod m = 0"
  using is_prime_dvd_mult [OF assms(1), of x y] assms(2) by (simp add: dvd_eq_mod_eq_0)

lemma InvMod_unit:
  assumes "is_prime m" and "0 < x" and "x < m" and "m \<le> 2 ^ 30"
  shows "\<exists>v. InvMod x m = Inr v \<and> (x * v) mod m = 1"
proof -
  have m: "1 < m" using assms(1) by (simp add: is_prime_def)
  have x: "- (2 ^ 31) \<le> x" "x < 2 ^ 31"
    using assms(2,3,4) by simp_all
  have "\<not> m dvd x"
    using assms(2,3) by (simp add: zdvd_not_zless)
  then have "gcd x m = 1"
    by (rule is_prime_coprime [OF assms(1)])
  then obtain v where "InvMod x m = Inr v"
    using InvMod_returns [of x m] assms(2,4) m x(2) by auto
  then show ?thesis
    using InvMod_sound [OF m _ assms(4) x] by blast
qed

section \<open>\<open>DivMod\<close>\<close>

lemma singleton_zero_iff: "(length xs = 1 \<and> xs ! 0 = 0) \<longleftrightarrow> xs = [0::int]"
  by (cases xs) auto

lemma DivMod_sub_nth:
  "shift + n \<le> length s0 \<Longrightarrow> k < length s0 \<Longrightarrow>
   foldl (\<lambda>s i. s[shift + i := g i]) s0 [0..<n] ! k =
     (if shift \<le> k \<and> k < shift + n then g (k - shift) else s0 ! k)"
proof (induction n arbitrary: k)
  case 0
  then show ?case by auto
next
  case (Suc n)
  let ?s = "foldl (\<lambda>s i. s[shift + i := g i]) s0 [0..<n]"
  have len: "length ?s = length s0"
    by (rule length_foldl_update)
  have IH: "?s ! j = (if shift \<le> j \<and> j < shift + n then g (j - shift) else s0 ! j)"
    if "j < length s0" for j
    using Suc that by simp
  show ?case
    using Suc.prems len IH [of k] by (auto simp: nth_list_update)
qed

lemma length_DivMod_sub: "length (DivMod_sub m coef shift ds) = shift + length ds"
  by (simp add: DivMod_sub_def length_foldl_update)

lemma coeff_DivMod_sub:
  "coeff (DivMod_sub m coef shift ds) k mod m
     = (if shift \<le> k then coef * coeff ds (k - shift) else 0) mod m"
proof (cases "k < shift + length ds")
  case True
  have "DivMod_sub m coef shift ds ! k
      = (if shift \<le> k \<and> k < shift + length ds then (coef * ds ! (k - shift)) smod m
         else replicate (shift + length ds) 0 ! k)"
    unfolding DivMod_sub_def by (rule DivMod_sub_nth) (use True in simp_all)
  then show ?thesis
    using True by (auto simp: coeff_def length_DivMod_sub smod_mod_cong)
next
  case False
  then show ?thesis
    by (auto simp: coeff_def length_DivMod_sub)
qed

lemma coeff_list_update:
  "i < length xs \<Longrightarrow> coeff (xs[i := c]) j = (if j = i then c else coeff xs j)"
  by (auto simp: coeff_def)

lemma conv_update:
  assumes "i < length Q" and "Q ! i = 0"
  shows "conv (coeff (Q[i := c])) D k = conv (coeff Q) D k + (if i \<le> k then c * D (k - i) else 0)"
proof -
  have eq: "coeff (Q[i := c]) j = coeff Q j + (if j = i then c else 0)" for j
    using assms by (auto simp: coeff_list_update coeff_def)
  have "conv (coeff (Q[i := c])) D k
      = (\<Sum>j\<le>k. coeff Q j * D (k - j) + (if j = i then c * D (k - j) else 0))"
    unfolding conv_def eq by (intro sum.cong refl) (simp add: algebra_simps)
  also have "\<dots> = conv (coeff Q) D k + (\<Sum>j\<le>k. if j = i then c * D (k - j) else 0)"
    by (simp add: sum.distrib conv_def)
  also have "(\<Sum>j\<le>k. if j = i then c * D (k - j) else 0) = (if i \<le> k then c * D (k - i) else 0)"
    by simp
  finally show ?thesis .
qed

lemma Degree_diff: "length (a d) \<le> length (a R) \<Longrightarrow> nat (Degree R - Degree d) = length (a R) - length (a d)"
  by (simp add: Degree_def)

lemma DivMod_cond_iff:
  "invariants R \<Longrightarrow> DivMod_cond d R \<longleftrightarrow> length (a d) \<le> length (a R) \<and> a R \<noteq> [0]"
  using singleton_zero_iff [of "a R"] by (auto simp: DivMod_cond_def Degree_def)

lemma DivMod_body_step:
  assumes m: "0 < m" and d: "invariants d" "p d = m" "a d \<noteq> [0]"
    and inv: "(last (a d) * iv) mod m = 1"
    and R: "invariants R" "p R = m" "a R \<noteq> [0]" "length (a d) \<le> length (a R)"
    and QR1: "DivMod_body d m iv (Q, R) = (Q1, R1)"
    and mb: "m \<le> 2 ^ 30"
  shows "invariants R1" and "p R1 = m"
    and "Q1 = Q[length (a R) - length (a d) := (last (a R) * iv) smod m]"
    and "\<And>k. coeff (a R1) k = (coeff (a R) k
          - (if length (a R) - length (a d) \<le> k
             then (last (a R) * iv) smod m * coeff (a d) (k - (length (a R) - length (a d))) else 0)) mod m"
    and "\<And>k. length (a R) - 1 \<le> k \<Longrightarrow> coeff (a R1) k = 0"
proof -
  define shift where "shift = length (a R) - length (a d)"
  define coef where "coef = (last (a R) * iv) smod m"
  define sub where "sub = DivMod_sub m coef shift (a d)"
  have R1: "R1 = Subtract R (Poly_vec sub m)" and Q1: "Q1 = Q[shift := coef]"
    using QR1 R(4) by (simp_all add: DivMod_body_def Let_def Degree_diff shift_def coef_def sub_def)
  have neR: "a R \<noteq> []" and ned: "a d \<noteq> []"
    using R(1) d(1) by (simp_all add: invariants_def)
  have cR: "canonical m (a R)"
    using invariants_canonical [OF R(1)] R(2) by simp
  have cS: "canonical m (a (Poly_vec sub m))"
    using canonical_Normalize [of "\<lparr>p = m, a = sub\<rparr>"] m mb by (simp add: Poly_vec_def)
  show "invariants R1"
    unfolding R1 by (rule invariants_Subtract) (use m mb R(2) neR in simp_all)
  show "p R1 = m"
    by (simp add: R1 p_Subtract R(2))
  show "Q1 = Q[length (a R) - length (a d) := (last (a R) * iv) smod m]"
    by (simp add: Q1 shift_def coef_def)
  have cR1: "coeff (a R1) k = (coeff (a R) k - (if shift \<le> k then coef * coeff (a d) (k - shift) else 0)) mod m" for k
  proof -
    have "coeff (a R1) k = (coeff (a R) k - coeff (a (Poly_vec sub m)) k) mod m"
      using m mb cR cS by (simp add: R1 coeff_Subtract R(2))
    also have "coeff (a (Poly_vec sub m)) k = coeff sub k mod m"
      using m mb by (simp add: Poly_vec_def coeff_Normalize)
    also have "\<dots> = (if shift \<le> k then coef * coeff (a d) (k - shift) else 0) mod m"
      unfolding sub_def by (rule coeff_DivMod_sub)
    finally show ?thesis
      by (simp add: mod_diff_right_eq)
  qed
  then show "\<And>k. coeff (a R1) k = (coeff (a R) k
          - (if length (a R) - length (a d) \<le> k
             then (last (a R) * iv) smod m * coeff (a d) (k - (length (a R) - length (a d))) else 0)) mod m"
    by (simp add: shift_def coef_def)
  show "coeff (a R1) k = 0" if k: "length (a R) - 1 \<le> k" for k
  proof (cases "k = length (a R) - 1")
    case True
    have "1 \<le> length (a d)"
      using ned by (cases "a d") simp_all
    then have sk: "shift \<le> k" "k - shift = length (a d) - 1"
      using True R(4) unfolding shift_def by arith+
    have cR: "coeff (a R) k = last (a R)"
      using True neR by (simp add: coeff_def last_conv_nth)
    have cd: "coeff (a d) (length (a d) - 1) = last (a d)"
      using ned by (simp add: coeff_def last_conv_nth)
    have "(coef * last (a d)) mod m = (last (a R) * iv * last (a d)) mod m"
      unfolding coef_def by (metis mod_mult_left_eq smod_mod_cong)
    also have "last (a R) * iv * last (a d) = last (a R) * (last (a d) * iv)"
      by (simp add: ac_simps)
    also have "(last (a R) * (last (a d) * iv)) mod m = (last (a R) * ((last (a d) * iv) mod m)) mod m"
      by (simp only: mod_mult_right_eq)
    also have "\<dots> = last (a R) mod m"
      by (simp add: inv)
    finally have "(last (a R) - coef * last (a d)) mod m = 0"
      by (metis mod_diff_right_eq diff_self mod_0)
    then show ?thesis
      using cd by (simp add: cR1 sk cR)
  next
    case False
    then have "length (a R) \<le> k" using k by simp
    then have "length (a d) \<le> k - shift"
      using R(4) unfolding shift_def by arith
    then have "coeff (a R) k = 0" "coeff (a d) (k - shift) = 0"
      using \<open>length (a R) \<le> k\<close> by (simp_all add: coeff_beyond)
    then show ?thesis
      by (simp add: cR1)
  qed
qed

lemma DivMod_loop_stop:
  "\<not> DivMod_cond d R \<Longrightarrow> DivMod_loop d m iv (Q, R) = Some (Q, R)"
  by (subst DivMod_loop.simps) simp

lemma DivMod_loop_step:
  "DivMod_cond d R \<Longrightarrow> DivMod_loop d m iv (Q, R) = DivMod_loop d m iv (DivMod_body d m iv (Q, R))"
  by (subst DivMod_loop.simps) simp

lemma DivMod_loop_correct:
  assumes m: "0 < m" and d: "invariants d" "p d = m" "a d \<noteq> [0]"
    and inv: "(last (a d) * iv) mod m = 1" and mb: "m \<le> 2 ^ 30"
  shows "invariants R \<Longrightarrow> p R = m \<Longrightarrow>
     (a R \<noteq> [0] \<Longrightarrow> \<forall>i. i + length (a d) \<le> length (a R) \<longrightarrow> i < length Q \<and> Q ! i = 0) \<Longrightarrow>
     \<exists>Q' R'. DivMod_loop d m iv (Q, R) = Some (Q', R') \<and> invariants R' \<and> p R' = m \<and>
       (a R' = [0] \<or> length (a R') < length (a d)) \<and> length Q' = length Q \<and>
       (\<forall>k. (conv (coeff Q') (coeff (a d)) k + coeff (a R') k) mod m
             = (conv (coeff Q) (coeff (a d)) k + coeff (a R) k) mod m)"
proof (induction "length (a R)" arbitrary: Q R rule: less_induct)
  case less
  show ?case
  proof (cases "DivMod_cond d R")
    case False
    then have "a R = [0] \<or> length (a R) < length (a d)"
      using less.prems(1) by (auto simp: DivMod_cond_iff)
    then show ?thesis
      using False less.prems(1,2) by (simp add: DivMod_loop_stop)
  next
    case True
    then have nz: "a R \<noteq> [0]" and le: "length (a d) \<le> length (a R)"
      using less.prems(1) by (simp_all add: DivMod_cond_iff)
    obtain Q1 R1 where QR1: "DivMod_body d m iv (Q, R) = (Q1, R1)"
      by (cases "DivMod_body d m iv (Q, R)")
    note st = DivMod_body_step [OF m d inv less.prems(1,2) nz le QR1 mb]
    define shift where "shift = length (a R) - length (a d)"
    define coef where "coef = (last (a R) * iv) smod m"
    have Qs: "shift < length Q" "Q ! shift = 0"
      using less.prems(3) [OF nz] le by (auto simp: shift_def)
    have Q1: "Q1 = Q[shift := coef]"
      using st(3) by (simp add: shift_def coef_def)
    have cR1: "coeff (a R1) k = (coeff (a R) k
          - (if shift \<le> k then coef * coeff (a d) (k - shift) else 0)) mod m" for k
      using st(4) [of k] by (simp add: shift_def coef_def)
    have keep: "(conv (coeff Q1) (coeff (a d)) k + coeff (a R1) k) mod m
             = (conv (coeff Q) (coeff (a d)) k + coeff (a R) k) mod m" for k
    proof -
      have "(conv (coeff Q1) (coeff (a d)) k + coeff (a R1) k) mod m
          = (conv (coeff Q) (coeff (a d)) k + (if shift \<le> k then coef * coeff (a d) (k - shift) else 0)
             + (coeff (a R) k - (if shift \<le> k then coef * coeff (a d) (k - shift) else 0))) mod m"
        unfolding Q1 conv_update [OF Qs] cR1 by (simp only: mod_add_right_eq)
      then show ?thesis by simp
    qed
    have unfold: "DivMod_loop d m iv (Q, R) = DivMod_loop d m iv (Q1, R1)"
      using True QR1 by (simp add: DivMod_loop_step)
    show ?thesis
    proof (cases "a R1 = [0]")
      case True
      then have "\<not> DivMod_cond d R1"
        using st(1) by (simp add: DivMod_cond_iff)
      then have "DivMod_loop d m iv (Q, R) = Some (Q1, R1)"
        unfolding unfold by (rule DivMod_loop_stop)
      then show ?thesis
        using st(1,2) True keep Q1 by simp
    next
      case False
      have big: "1 < length (a R)"
      proof (rule ccontr)
        assume "\<not> 1 < length (a R)"
        then have "coeff (a R1) k = 0" for k
          using st(5) [of k] by simp
        then have "a R1 = [0]"
          by (rule invariants_all_zero [OF st(1)])
        then show False using False by simp
      qed
      have "length (a R1) \<le> length (a R) - 1"
        by (rule length_invariants_bound [OF st(1)]) (use big st(5) in simp_all)
      then have shorter: "length (a R1) < length (a R)"
        using big by simp
      have Q1z: "\<forall>i. i + length (a d) \<le> length (a R1) \<longrightarrow> i < length Q1 \<and> Q1 ! i = 0"
      proof (intro allI impI)
        fix i assume "i + length (a d) \<le> length (a R1)"
        then have i: "i + length (a d) \<le> length (a R)" "i \<noteq> shift"
          using shorter by (auto simp: shift_def)
        then show "i < length Q1 \<and> Q1 ! i = 0"
          using less.prems(3) [OF nz] by (simp add: Q1)
      qed
      obtain Q' R' where res: "DivMod_loop d m iv (Q1, R1) = Some (Q', R')" "invariants R'" "p R' = m"
          "a R' = [0] \<or> length (a R') < length (a d)" "length Q' = length Q1"
          "\<forall>k. (conv (coeff Q') (coeff (a d)) k + coeff (a R') k) mod m
             = (conv (coeff Q1) (coeff (a d)) k + coeff (a R1) k) mod m"
        using less.hyps [OF shorter st(1,2) Q1z] by blast
      show ?thesis
        unfolding unfold using res keep Q1 by simp
    qed
  qed
qed

lemma conv_mod_left: "conv (\<lambda>i. F i mod m) G k mod m = conv F G k mod (m::int)"
proof -
  have "(\<Sum>i\<le>k. (F i mod m * G (k - i)) mod m) mod m = (\<Sum>i\<le>k. (F i * G (k - i)) mod m) mod m"
    by (simp add: mod_mult_left_eq)
  then show ?thesis
    unfolding conv_def by (simp only: mod_sum_eq)
qed

lemma conv_zero_left: "(\<And>i. F i = 0) \<Longrightarrow> conv F G k = 0"
  by (simp add: conv_def)

lemma invariants_last:
  assumes "invariants d" and "a d \<noteq> [0]" and "0 < p d"
  shows "0 < last (a d) \<and> last (a d) < p d"
proof -
  have ne: "a d \<noteq> []" using assms(1) by (simp add: invariants_def)
  then have "last (a d) \<in> set (a d)" by simp
  then have "0 \<le> last (a d) \<and> last (a d) \<le> p d - 1"
    using assms(1) by (simp add: invariants_def)
  moreover have "last (a d) \<noteq> 0"
    using assms(1,2) by (simp add: invariants_def)
  ultimately show ?thesis by simp
qed

lemma DivMod_correct:
  assumes pr: "is_prime (p A)" and A: "invariants A"
    and d: "invariants d" "p d = p A" "a d \<noteq> [0]" and pb: "p A \<le> 2 ^ 30"
  shows "\<exists>Q R. DivMod A d = Some (Inr (Q, R)) \<and> invariants R \<and> p R = p A \<and> p Q = p A \<and>
      (a R = [0] \<or> length (a R) < length (a d)) \<and>
      (if length (a d) \<le> length (a A) then invariants Q else a Q = []) \<and>
      length (a Q) \<le> length (a A) \<and>
      (\<forall>k. coeff (a A) k = (conv (coeff (a Q)) (coeff (a d)) k + coeff (a R) k) mod p A)"
proof -
  define m where "m = p A"
  have m: "0 < m" "1 < m"
    using pr by (simp_all add: is_prime_def m_def)
  have mb: "m \<le> 2 ^ 30"
    using pb by (simp add: m_def)
  have lead: "0 < last (a d) \<and> last (a d) < m"
    using invariants_last [OF d(1,3)] m(1) d(2) by (simp add: m_def)
  obtain iv where iv: "InvMod (last (a d)) m = Inr iv" "(last (a d) * iv) mod m = 1"
    using InvMod_unit [of m "last (a d)"] pr lead mb by (auto simp: m_def)
  define Q0 :: "int list" where "Q0 = replicate (nat (max 0 (Degree A - Degree d + 1))) 0"
  have lenQ0: "length Q0 = length (a A) + 1 - length (a d)"
    by (simp add: Q0_def Degree_def)
  have Q0z: "\<forall>i. i + length (a d) \<le> length (a A) \<longrightarrow> i < length Q0 \<and> Q0 ! i = 0"
  proof (intro allI impI)
    fix i assume "i + length (a d) \<le> length (a A)"
    then have i: "i < length Q0" by (simp add: lenQ0)
    then have "Q0 ! i = 0" unfolding Q0_def by simp
    with i show "i < length Q0 \<and> Q0 ! i = 0" by simp
  qed
  have dm: "p d = m" using d(2) by (simp add: m_def)
  obtain Q' R' where res: "DivMod_loop d m iv (Q0, A) = Some (Q', R')" "invariants R'" "p R' = m"
      "a R' = [0] \<or> length (a R') < length (a d)" "length Q' = length Q0"
      "\<forall>k. (conv (coeff Q') (coeff (a d)) k + coeff (a R') k) mod m
             = (conv (coeff Q0) (coeff (a d)) k + coeff (a A) k) mod m"
    using DivMod_loop_correct [OF m(1) d(1) dm d(3) iv(2) mb A, of Q0] Q0z
    by (auto simp: m_def)
  define Q where "Q = Normalize \<lparr>p = m, a = Q'\<rparr>"
  have nz: "\<not> (Degree d = 0 \<and> a d ! 0 = 0)"
    using d(3) singleton_zero_iff [of "a d"] by (auto simp: Degree_def)
  have R'fix: "Normalize R' = R'"
    by (rule Normalize_fixed) (use res(2,3) m(1) mb in simp_all)
  have run: "DivMod A d = Some (Inr (Q, R'))"
    using nz iv(1) res(1) R'fix
    by (simp add: DivMod_def Let_def Q0_def [symmetric] m_def [symmetric] Q_def)
  have cQ: "coeff (a Q) k = coeff Q' k mod m" for k
    using m(1) mb by (simp add: Q_def coeff_Normalize)
  have Q0c: "coeff Q0 i = 0" for i
    by (simp add: coeff_def Q0_def)
  have eqn: "coeff (a A) k = (conv (coeff (a Q)) (coeff (a d)) k + coeff (a R') k) mod m" for k
  proof -
    have "(conv (coeff (a Q)) (coeff (a d)) k + coeff (a R') k) mod m
        = (conv (\<lambda>i. coeff Q' i mod m) (coeff (a d)) k mod m + coeff (a R') k) mod m"
      by (simp add: cQ [abs_def] mod_add_left_eq)
    also have "\<dots> = (conv (coeff Q') (coeff (a d)) k + coeff (a R') k) mod m"
      by (simp only: conv_mod_left mod_add_left_eq)
    also have "\<dots> = (conv (coeff Q0) (coeff (a d)) k + coeff (a A) k) mod m"
      using res(6) by simp
    also have "\<dots> = coeff (a A) k mod m"
      by (simp add: conv_zero_left [OF Q0c])
    also have "\<dots> = coeff (a A) k"
      using invariants_coeff_mod [OF A] m(1) by (simp add: m_def)
    finally show ?thesis by simp
  qed
  have Qinv: "if length (a d) \<le> length (a A) then invariants Q else a Q = []"
  proof (cases "length (a d) \<le> length (a A)")
    case True
    then have "Q' \<noteq> []"
      using res(5) lenQ0 by auto
    then have "invariants Q"
      unfolding Q_def by (intro invariants_Normalize) (use m(1) mb in simp_all)
    then show ?thesis using True by simp
  next
    case False
    then have "Q' = []"
      using res(5) lenQ0 by simp
    then show ?thesis
      using False by (simp add: Q_def Normalize_Nil_iff)
  qed
  have "length (a Q) \<le> length Q'"
    unfolding Q_def using length_Normalize [of "\<lparr>p = m, a = Q'\<rparr>"] by simp
  moreover have "a d \<noteq> []" using d(1) by (simp add: invariants_def)
  ultimately have lenQ: "length (a Q) \<le> length (a A)"
    using res(5) lenQ0 by (cases "a d") simp_all
  have pQ: "p Q = m"
    by (simp add: Q_def p_Normalize)
  show ?thesis
    unfolding m_def [symmetric]
    using run res(2,3,4) Qinv lenQ eqn pQ by blast
qed

lemma DivMod_recompose:
  assumes m: "0 < p A" and A: "invariants A" and R: "invariants R" and pQ: "p Q = p A"
    and eqn: "\<And>k. coeff (a A) k = (conv (coeff (a Q)) (coeff (a d)) k + coeff (a R) k) mod p A"
    and pR: "p R = p A" and mb: "p A \<le> 2 ^ 30"
  shows "Add (Multiply Q d) R = A"
proof (rule invariants_ext)
  have "a R \<noteq> []" using R by (simp add: invariants_def)
  then show "invariants (Add (Multiply Q d) R)"
    by (intro invariants_Add) (use m mb pQ in \<open>simp_all add: p_Multiply\<close>)
  show "invariants A" by fact
  show "p (Add (Multiply Q d) R) = p A"
    by (simp add: p_Add p_Multiply pQ)
  have cM: "canonical (p A) (a (Multiply Q d))"
    using canonical_Multiply [of Q d] m mb pQ by simp
  have cR: "canonical (p A) (a R)"
    using invariants_canonical [OF R] pR by simp
  show "coeff (a (Add (Multiply Q d) R)) k = coeff (a A) k" for k
    using m mb pQ cM cR
    by (simp add: coeff_Add coeff_Multiply p_Multiply eqn mod_add_left_eq)
qed

text \<open>The contract of \<open>DivMod\<close> as far as the program keeps it. For every \<open>A\<close> and every
  divisor \<open>d\<close> other than the zero polynomial, both satisfying the invariants over the same
  prime modulus up to \<open>2^30\<close>, \<open>DivMod\<close> returns a pair \<open>(Q, R)\<close> with \<open>Q * d + R = A\<close>, where \<open>R\<close>
  is the zero polynomial or \<open>Degree(R) < Degree(d)\<close>; \<open>Normalize\<close> leaves both unchanged;
  the remainder satisfies the invariants, and so does the quotient when
  \<open>Degree(d) \<le> Degree(A)\<close>. Otherwise the quotient is the empty coefficient sequence,
  which \<open>operator *\<close> reads as zero.\<close>

lemma DivMod_division:
  assumes "is_prime (p A)" and "invariants A" and "invariants d" and "p d = p A" and "a d \<noteq> [0]"
    and "p A \<le> 2 ^ 30"
  shows "\<exists>Q R. DivMod A d = Some (Inr (Q, R)) \<and> Add (Multiply Q d) R = A \<and>
           (a R = [0] \<or> Degree R < Degree d) \<and> Normalize Q = Q \<and> Normalize R = R \<and>
           invariants R \<and> (if Degree d \<le> Degree A then invariants Q else a Q = [])"
proof -
  have m: "0 < p A" using assms(1) by (simp add: is_prime_def)
  obtain Q R where res: "DivMod A d = Some (Inr (Q, R))" "invariants R" "p R = p A" "p Q = p A"
      "a R = [0] \<or> length (a R) < length (a d)"
      "if length (a d) \<le> length (a A) then invariants Q else a Q = []"
      "\<And>k. coeff (a A) k = (conv (coeff (a Q)) (coeff (a d)) k + coeff (a R) k) mod p A"
    using DivMod_correct [OF assms] by blast
  have "Add (Multiply Q d) R = A"
    using m assms(2) res(2,4) res(7) res(3) assms(6) by (rule DivMod_recompose)
  moreover have "a R = [0] \<or> Degree R < Degree d"
    using res(5) by (simp add: Degree_def)
  moreover have "Normalize R = R"
    by (rule Normalize_fixed) (use res(2,3) m assms(6) in simp_all)
  moreover have "Normalize Q = Q"
  proof (cases "length (a d) \<le> length (a A)")
    case True
    then have "invariants Q" using res(6) by simp
    then show ?thesis
      by (rule Normalize_fixed) (use res(4) m assms(6) in simp_all)
  next
    case False
    then have "a Q = []" using res(6) by simp
    then show ?thesis
      by (simp add: Normalize_def Normalize_pop_stop)
  qed
  moreover have "if Degree d \<le> Degree A then invariants Q else a Q = []"
    using res(6) by (simp add: Degree_def)
  ultimately show ?thesis
    using res(1,2) by blast
qed

text \<open>Scenario 5 of the specification: \<open>x^3 + 1\<close> by \<open>x + 1\<close> over \<open>GF(5)\<close>.\<close>

lemma DivMod_scenario_5:
  "DivMod (Poly_vec [1, 0, 0, 1] 5) (Poly_vec [1, 1] 5)
     = Some (Inr (\<lparr>p = 5, a = [1, 4, 1]\<rparr>, \<lparr>p = 5, a = [0]\<rparr>))"
  by code_simp

lemma DivMod_body_decreases:
  assumes m: "0 < m" and d: "invariants d" "p d = m" "a d \<noteq> [0]"
    and inv: "(last (a d) * iv) mod m = 1"
    and R: "invariants R" "p R = m" and c: "DivMod_cond d R" and mb: "m \<le> 2 ^ 30"
  shows "length (a (snd (DivMod_body d m iv (Q, R)))) < length (a R) \<or>
         a (snd (DivMod_body d m iv (Q, R))) = [0]"
proof -
  have nz: "a R \<noteq> [0]" and le: "length (a d) \<le> length (a R)"
    using c R(1) by (simp_all add: DivMod_cond_iff)
  obtain Q1 R1 where QR1: "DivMod_body d m iv (Q, R) = (Q1, R1)"
    by (cases "DivMod_body d m iv (Q, R)")
  note st = DivMod_body_step [OF m d inv R nz le QR1 mb]
  show ?thesis
  proof (cases "1 < length (a R)")
    case True
    have "length (a R1) \<le> length (a R) - 1"
      by (rule length_invariants_bound [OF st(1)]) (use True st(5) in simp_all)
    then have "length (a R1) < length (a R)" using True by arith
    then show ?thesis using QR1 by simp
  next
    case False
    then have "coeff (a R1) k = 0" for k
      using st(5) [of k] by simp
    then have "a R1 = [0]"
      by (rule invariants_all_zero [OF st(1)])
    then show ?thesis using QR1 by simp
  qed
qed

section \<open>Convolution and congruence modulo a polynomial\<close>

text \<open>Convolution is commutative and associative and distributes over the sum. Congruence
  modulo \<open>D\<close> is an equivalence that products respect. Over a prime modulus a non-zero
  multiple of \<open>D\<close> has at least the degree of \<open>D\<close>.\<close>

lemma conv_commute: "conv F G k = conv G F k"
proof -
  have "conv F G k = (\<Sum>i<Suc k. F i * G (k - i))"
    by (simp add: conv_def lessThan_Suc_atMost)
  also have "\<dots> = (\<Sum>i<Suc k. F (Suc k - Suc i) * G (k - (Suc k - Suc i)))"
    by (rule sum.nat_diff_reindex [symmetric])
  also have "\<dots> = (\<Sum>i<Suc k. G i * F (k - i))"
    by (rule sum.cong) (auto simp: mult.commute)
  finally show ?thesis
    by (simp add: conv_def lessThan_Suc_atMost)
qed

lemma conv_assoc: "conv (conv F G) H k = conv F (conv G H) k"
proof -
  let ?g = "\<lambda>i l. F i * G l * H (k - (i + l))"
  have "conv (conv F G) H k = (\<Sum>j\<le>k. \<Sum>i\<le>j. ?g i (j - i))"
    unfolding conv_def by (intro sum.cong refl) (simp add: sum_distrib_right)
  also have "\<dots> = (\<Sum>(i, l)\<in>{(i, l). i + l \<le> k}. ?g i l)"
    by (rule sum.triangle_reindex_eq [symmetric])
  also have "{(i, l). i + l \<le> k} = (SIGMA i:{..k}. {..k - i})"
    by auto
  also have "(\<Sum>(i, l)\<in>(SIGMA i:{..k}. {..k - i}). ?g i l) = (\<Sum>i\<le>k. \<Sum>l\<le>k - i. ?g i l)"
    by (simp add: sum.Sigma)
  also have "\<dots> = conv F (conv G H) k"
    unfolding conv_def by (intro sum.cong refl) (simp add: sum_distrib_left mult.assoc)
  finally show ?thesis .
qed

lemma conv_add_left: "conv (\<lambda>i. F i + F' i) G k = conv F G k + conv F' G k"
  by (simp add: conv_def algebra_simps sum.distrib)

lemma conv_minus_left: "conv (\<lambda>i. - F i) G k = - conv F G k"
  by (simp add: conv_def sum_negf)

lemma conv_cong_left:
  assumes "\<And>i. F i mod m = F' i mod (m::int)"
  shows "conv F G k mod m = conv F' G k mod m"
proof -
  have "conv F G k mod m = conv (\<lambda>i. F i mod m) G k mod m"
    by (simp only: conv_mod_left)
  also have "\<dots> = conv (\<lambda>i. F' i mod m) G k mod m"
    by (simp only: assms)
  also have "\<dots> = conv F' G k mod m"
    by (simp only: conv_mod_left)
  finally show ?thesis .
qed

lemma conv_monom: "conv (monom i) (monom j) k = monom (i + j) k"
proof -
  have "conv (monom i) (monom j) k = (\<Sum>l\<le>k. if l = i then monom j (k - l) else 0)"
    unfolding conv_def by (intro sum.cong refl) (simp add: monom_def)
  also have "\<dots> = (if i \<le> k then monom j (k - i) else 0)"
    by simp
  also have "\<dots> = monom (i + j) k"
    by (auto simp: monom_def)
  finally show ?thesis .
qed

lemma mod_sum_zero:
  assumes "\<And>i. i \<in> S \<Longrightarrow> f i mod m = (0::int)"
  shows "sum f S mod m = 0"
proof -
  have "sum f S mod m = (\<Sum>i\<in>S. f i mod m) mod m"
    by (simp only: mod_sum_eq)
  also have "(\<Sum>i\<in>S. f i mod m) = 0"
    by (rule sum.neutral) (simp add: assms)
  finally show ?thesis by simp
qed

lemma vanishes_conv:
  assumes "vanishes m N1 F" and "vanishes m N2 G"
  shows "vanishes m (N1 + N2) (conv F G)"
  unfolding vanishes_def
proof (intro allI impI)
  fix k assume k: "N1 + N2 \<le> k"
  show "conv F G k mod m = 0"
    unfolding conv_def
  proof (rule mod_sum_zero)
    fix i assume "i \<in> {..k}"
    show "F i * G (k - i) mod m = 0"
    proof (cases "N1 \<le> i")
      case True
      then have "F i mod m = 0" using assms(1) by (simp add: vanishes_def)
      then show ?thesis by (metis mod_mult_left_eq mult_zero_left mod_0)
    next
      case False
      then have "N2 \<le> k - i" using k by simp
      then have "G (k - i) mod m = 0" using assms(2) by (simp add: vanishes_def)
      then show ?thesis by (metis mod_mult_right_eq mult_zero_right mod_0)
    qed
  qed
qed

lemma vanishes_add:
  assumes "vanishes m N1 F" and "vanishes m N2 G"
  shows "vanishes m (max N1 N2) (\<lambda>i. F i + G i)"
  unfolding vanishes_def
proof (intro allI impI)
  fix i assume "max N1 N2 \<le> i"
  then have "F i mod m = 0" "G i mod m = 0"
    using assms by (simp_all add: vanishes_def)
  then show "(F i + G i) mod m = 0"
    by (metis mod_add_eq add.right_neutral mod_0)
qed

lemma vanishes_minus: "vanishes m N F \<Longrightarrow> vanishes m N (\<lambda>i. - F i)"
  by (simp add: vanishes_def mod_minus_eq [symmetric] dvd_eq_mod_eq_0 [symmetric])

lemma vanishes_coeff: "vanishes m (length xs) (coeff xs)"
  by (simp add: vanishes_def coeff_def)

text \<open>The coefficient of the product at the sum of the two degrees.\<close>

lemma conv_top:
  assumes Z: "vanishes m (Suc N) Z" and D: "vanishes m (Suc n) D"
  shows "conv Z D (N + n) mod m = (Z N * D n) mod m"
proof -
  have "conv Z D (N + n) mod m = (\<Sum>i\<le>N + n. (Z i * D (N + n - i)) mod m) mod m"
    unfolding conv_def by (simp only: mod_sum_eq)
  also have "(\<Sum>i\<le>N + n. (Z i * D (N + n - i)) mod m)
      = (\<Sum>i\<le>N + n. if i = N then (Z N * D n) mod m else 0)"
  proof (rule sum.cong [OF refl])
    fix i assume "i \<in> {..N + n}"
    show "(Z i * D (N + n - i)) mod m = (if i = N then (Z N * D n) mod m else 0)"
    proof (cases "i = N")
      case True
      then show ?thesis by simp
    next
      case False
      show ?thesis
      proof (cases "i < N")
        case True
        then have "Suc n \<le> N + n - i" by simp
        then have "D (N + n - i) mod m = 0" using D by (simp add: vanishes_def)
        then have "(Z i * D (N + n - i)) mod m = 0"
          by (metis mod_mult_right_eq mult_zero_right mod_0)
        then show ?thesis using False by simp
      next
        case False
        then have "Suc N \<le> i" using \<open>i \<noteq> N\<close> by simp
        then have "Z i mod m = 0" using Z by (simp add: vanishes_def)
        then have "(Z i * D (N + n - i)) mod m = 0"
          by (metis mod_mult_left_eq mult_zero_left mod_0)
        then show ?thesis using \<open>i \<noteq> N\<close> by simp
      qed
    qed
  qed
  also have "\<dots> = (Z N * D n) mod m"
    by simp
  finally show ?thesis by simp
qed

text \<open>A multiple of \<open>D\<close> that vanishes from the degree of \<open>D\<close> on has a zero cofactor.\<close>

lemma cofactor_zero:
  assumes pr: "is_prime m" and D: "vanishes m (Suc n) D" and lead: "D n mod m \<noteq> 0"
  shows "vanishes m N Z \<Longrightarrow> (\<forall>k. n \<le> k \<longrightarrow> conv Z D k mod m = 0) \<Longrightarrow> vanishes m 0 Z"
proof (induction N)
  case 0
  then show ?case by simp
next
  case (Suc N)
  have "(Z N * D n) mod m = 0"
    using conv_top [OF Suc.prems(1) D] Suc.prems(2) by simp
  then have "Z N mod m = 0"
    using is_prime_mult_mod [OF pr, of "Z N" "D n"] lead by simp
  then have "vanishes m N Z"
    using Suc.prems(1) unfolding vanishes_def by (metis le_antisym not_less_eq_eq)
  then show ?case
    using Suc.IH Suc.prems(2) by simp
qed

lemma cong_mod_refl: "cong_mod m D X X"
  unfolding cong_mod_def
  by (rule exI [of _ "\<lambda>_. 0"], rule exI [of _ 0]) (simp add: vanishes_def conv_def)

lemma cong_mod_pointwise: "(\<And>k. X k mod m = Y k mod m) \<Longrightarrow> cong_mod m D X Y"
  unfolding cong_mod_def
  by (rule exI [of _ "\<lambda>_. 0"], rule exI [of _ 0]) (simp add: vanishes_def conv_def)

lemma cong_mod_sym:
  assumes "cong_mod m D X Y" shows "cong_mod m D Y X"
proof -
  obtain Z N where Z: "vanishes m N Z" "\<And>k. X k mod m = (Y k + conv Z D k) mod m"
    using assms unfolding cong_mod_def by blast
  have "Y k mod m = (X k + conv (\<lambda>i. - Z i) D k) mod m" for k
  proof -
    have "(X k + conv (\<lambda>i. - Z i) D k) mod m = (X k mod m - conv Z D k) mod m"
      by (simp add: conv_minus_left mod_diff_left_eq)
    also have "\<dots> = ((Y k + conv Z D k) mod m - conv Z D k) mod m"
      by (simp only: Z(2))
    also have "\<dots> = Y k mod m"
      by (simp add: mod_diff_left_eq)
    finally show ?thesis by simp
  qed
  then show ?thesis
    unfolding cong_mod_def using vanishes_minus [OF Z(1)] by blast
qed

lemma cong_mod_trans:
  assumes "cong_mod m D X Y" and "cong_mod m D Y W" shows "cong_mod m D X W"
proof -
  obtain Z1 N1 where Z1: "vanishes m N1 Z1" "\<And>k. X k mod m = (Y k + conv Z1 D k) mod m"
    using assms(1) unfolding cong_mod_def by blast
  obtain Z2 N2 where Z2: "vanishes m N2 Z2" "\<And>k. Y k mod m = (W k + conv Z2 D k) mod m"
    using assms(2) unfolding cong_mod_def by blast
  have "X k mod m = (W k + conv (\<lambda>i. Z2 i + Z1 i) D k) mod m" for k
  proof -
    have "X k mod m = (Y k mod m + conv Z1 D k) mod m"
      by (simp add: Z1(2) mod_add_left_eq)
    also have "\<dots> = ((W k + conv Z2 D k) mod m + conv Z1 D k) mod m"
      by (simp only: Z2(2))
    also have "\<dots> = (W k + conv (\<lambda>i. Z2 i + Z1 i) D k) mod m"
      by (simp add: conv_add_left mod_add_left_eq add.assoc)
    finally show ?thesis .
  qed
  then show ?thesis
    unfolding cong_mod_def using vanishes_add [OF Z2(1) Z1(1)] by blast
qed

lemma cong_mod_conv_left:
  assumes "cong_mod m D X X'" and Y: "vanishes m NY Y"
  shows "cong_mod m D (conv X Y) (conv X' Y)"
proof -
  obtain Z N where Z: "vanishes m N Z" "\<And>k. X k mod m = (X' k + conv Z D k) mod m"
    using assms(1) unfolding cong_mod_def by blast
  have "conv X Y k mod m = (conv X' Y k + conv (conv Z Y) D k) mod m" for k
  proof -
    have "conv X Y k mod m = conv (\<lambda>i. X' i + conv Z D i) Y k mod m"
      by (rule conv_cong_left) (simp add: Z(2))
    also have "conv (\<lambda>i. X' i + conv Z D i) Y k = conv X' Y k + conv (conv Z D) Y k"
      by (rule conv_add_left)
    also have "conv (conv Z D) Y k = conv Z (conv D Y) k"
      by (rule conv_assoc)
    also have "\<dots> = conv Z (conv Y D) k"
      by (simp add: conv_commute [of D Y, abs_def])
    also have "\<dots> = conv (conv Z Y) D k"
      by (rule conv_assoc [symmetric])
    finally show ?thesis .
  qed
  then show ?thesis
    unfolding cong_mod_def using vanishes_conv [OF Z(1) Y] by blast
qed

lemma cong_mod_conv:
  assumes "cong_mod m D X X'" and "cong_mod m D Y Y'"
    and "vanishes m NY Y" and "vanishes m NX X'"
  shows "cong_mod m D (conv X Y) (conv X' Y')"
proof -
  have "cong_mod m D (conv X Y) (conv X' Y)"
    by (rule cong_mod_conv_left [OF assms(1,3)])
  moreover have "cong_mod m D (conv Y X') (conv Y' X')"
    by (rule cong_mod_conv_left [OF assms(2,4)])
  then have "cong_mod m D (conv X' Y) (conv X' Y')"
    by (simp add: conv_commute [of X', abs_def])
  ultimately show ?thesis
    by (rule cong_mod_trans)
qed

section \<open>Remainders are unique; \<open>PowX\<close> computes the remainder of a power of \<open>x\<close>\<close>

text \<open>Two reduced polynomials that are congruent modulo \<open>d\<close> are equal. The remainder that
  \<open>DivMod\<close> returns is congruent to the dividend, so the remainder of a product is
  determined by the classes of the factors, and the loop of \<open>PowX\<close> returns the reduced
  polynomial congruent to \<open>x^k\<close>.\<close>

lemma reduced_vanish:
  assumes "reduced d R" and "length (a d) - 1 \<le> k" shows "coeff (a R) k = 0"
  using assms by (auto simp: reduced_def coeff_def)

lemma vanishes_zero_conv:
  assumes "vanishes m 0 Z" shows "conv Z D k mod m = 0"
proof -
  have "conv Z D k mod m = conv (\<lambda>_. 0) D k mod m"
    by (rule conv_cong_left) (use assms in \<open>simp add: vanishes_def\<close>)
  then show ?thesis by (simp add: conv_def)
qed

lemma invariants_nonzero_lead:
  assumes pr: "is_prime m" and d: "invariants d" "p d = m" "a d \<noteq> [0]"
  shows "vanishes m (Suc (length (a d) - 1)) (coeff (a d))"
    and "coeff (a d) (length (a d) - 1) mod m \<noteq> 0"
proof -
  have ne: "a d \<noteq> []" using d(1) by (simp add: invariants_def)
  then have "Suc (length (a d) - 1) = length (a d)" by (cases "a d") simp_all
  then show "vanishes m (Suc (length (a d) - 1)) (coeff (a d))"
    using vanishes_coeff [of m "a d"] by simp
  have m: "0 < m" using pr by (simp add: is_prime_def)
  have "coeff (a d) (length (a d) - 1) = last (a d)"
    using ne by (simp add: coeff_def last_conv_nth)
  moreover have "0 < last (a d) \<and> last (a d) < m"
    using invariants_last [OF d(1,3)] m d(2) by simp
  ultimately show "coeff (a d) (length (a d) - 1) mod m \<noteq> 0"
    by simp
qed

lemma remainder_unique:
  assumes pr: "is_prime m" and d: "invariants d" "p d = m" "a d \<noteq> [0]"
    and R1: "invariants R1" "p R1 = m" "reduced d R1"
    and R2: "invariants R2" "p R2 = m" "reduced d R2"
    and c: "cong_mod m (coeff (a d)) (coeff (a R1)) (coeff (a R2))"
  shows "R1 = R2"
proof -
  let ?D = "coeff (a d)" and ?n = "length (a d) - 1"
  have m: "0 < m" using pr by (simp add: is_prime_def)
  obtain Z N where Z: "vanishes m N Z"
      "\<And>k. coeff (a R1) k mod m = (coeff (a R2) k + conv Z ?D k) mod m"
    using c unfolding cong_mod_def by blast
  have "\<forall>k. ?n \<le> k \<longrightarrow> conv Z ?D k mod m = 0"
  proof (intro allI impI)
    fix k assume "?n \<le> k"
    then have "coeff (a R1) k = 0" "coeff (a R2) k = 0"
      using R1(3) R2(3) by (simp_all add: reduced_vanish)
    then show "conv Z ?D k mod m = 0"
      using Z(2) [of k] by simp
  qed
  then have "vanishes m 0 Z"
    using cofactor_zero [OF pr invariants_nonzero_lead [OF pr d] Z(1)] by simp
  then have z: "conv Z ?D k mod m = 0" for k
    by (rule vanishes_zero_conv)
  have "coeff (a R1) k = coeff (a R2) k" for k
  proof -
    have "coeff (a R1) k mod m = (coeff (a R2) k mod m + conv Z ?D k mod m) mod m"
      by (simp add: Z(2) mod_add_eq)
    then have "coeff (a R1) k mod m = coeff (a R2) k mod m"
      by (simp add: z)
    then show ?thesis
      using invariants_coeff_mod [OF R1(1)] invariants_coeff_mod [OF R2(1)] R1(2) R2(2) m by simp
  qed
  then show ?thesis
    by (intro invariants_ext R1(1) R2(1)) (simp_all add: R1(2) R2(2))
qed

lemma DivMod_rem:
  assumes pr: "is_prime (p A)" and A: "invariants A"
    and d: "invariants d" "p d = p A" "a d \<noteq> [0]" and pb: "p A \<le> 2 ^ 30"
  shows "\<exists>Q R. DivMod A d = Some (Inr (Q, R)) \<and> invariants R \<and> p R = p A \<and> reduced d R \<and>
      cong_mod (p A) (coeff (a d)) (coeff (a R)) (coeff (a A))"
proof -
  obtain Q R where res: "DivMod A d = Some (Inr (Q, R))" "invariants R" "p R = p A"
      "a R = [0] \<or> length (a R) < length (a d)"
      "\<And>k. coeff (a A) k = (conv (coeff (a Q)) (coeff (a d)) k + coeff (a R) k) mod p A"
    using DivMod_correct [OF pr A d pb] by blast
  have "coeff (a A) k mod p A = (coeff (a R) k + conv (coeff (a Q)) (coeff (a d)) k) mod p A" for k
    by (subst res(5)) (simp add: add.commute)
  then have "cong_mod (p A) (coeff (a d)) (coeff (a A)) (coeff (a R))"
    unfolding cong_mod_def using vanishes_coeff [of "p A" "a Q"] by blast
  then have "cong_mod (p A) (coeff (a d)) (coeff (a R)) (coeff (a A))"
    by (rule cong_mod_sym)
  then show ?thesis
    using res(1-4) by (auto simp: reduced_def)
qed

lemma vanishes_monom: "vanishes m (Suc n) (monom n)"
  by (simp add: vanishes_def monom_def)

lemma mulmod:
  assumes pr: "is_prime m" and f: "invariants f" "p f = m" "a f \<noteq> [0]"
    and X: "invariants X" "p X = m" and Y: "invariants Y"
    and cX: "cong_mod m (coeff (a f)) (coeff (a X)) (monom i)"
    and cY: "cong_mod m (coeff (a f)) (coeff (a Y)) (monom j)"
    and mb: "m \<le> 2 ^ 30"
  shows "\<exists>Q R. DivMod (Multiply X Y) f = Some (Inr (Q, R)) \<and> invariants R \<and> p R = m \<and> reduced f R \<and>
      cong_mod m (coeff (a f)) (coeff (a R)) (monom (i + j))"
proof -
  let ?F = "coeff (a f)"
  have m: "0 < m" using pr by (simp add: is_prime_def)
  have neX: "a X \<noteq> []" and neY: "a Y \<noteq> []"
    using X(1) Y by (simp_all add: invariants_def)
  have M: "invariants (Multiply X Y)" "p (Multiply X Y) = m"
    using invariants_Multiply [of X Y] neX neY X(2) m mb by (simp_all add: p_Multiply)
  obtain Q R where res: "DivMod (Multiply X Y) f = Some (Inr (Q, R))" "invariants R" "p R = m"
      "reduced f R" "cong_mod m ?F (coeff (a R)) (coeff (a (Multiply X Y)))"
    using DivMod_rem [of "Multiply X Y" f] M pr f mb by auto
  have "cong_mod m ?F (coeff (a (Multiply X Y))) (conv (coeff (a X)) (coeff (a Y)))"
    by (rule cong_mod_pointwise) (use m mb X(2) in \<open>simp add: coeff_Multiply\<close>)
  moreover have "cong_mod m ?F (conv (coeff (a X)) (coeff (a Y))) (conv (monom i) (monom j))"
    by (rule cong_mod_conv [OF cX cY vanishes_coeff vanishes_monom])
  ultimately have "cong_mod m ?F (coeff (a R)) (conv (monom i) (monom j))"
    using res(5) cong_mod_trans by blast
  then have "cong_mod m ?F (coeff (a R)) (monom (i + j))"
    by (simp add: conv_monom [abs_def])
  then show ?thesis
    using res(1-4) by blast
qed

declare PowX_loop.simps [simp del]

lemma PowX_loop_correct:
  assumes pr: "is_prime m" and f: "invariants f" "p f = m" "a f \<noteq> [0]" and mb: "m \<le> 2 ^ 30"
  shows "invariants r \<Longrightarrow> p r = m \<Longrightarrow> invariants res \<Longrightarrow> p res = m \<Longrightarrow> reduced f res \<Longrightarrow>
     cong_mod m (coeff (a f)) (coeff (a r)) (monom e2) \<Longrightarrow>
     cong_mod m (coeff (a f)) (coeff (a res)) (monom e1) \<Longrightarrow>
     \<exists>R. PowX_loop k r res f = Some (Inr R) \<and> invariants R \<and> p R = m \<and> reduced f R \<and>
       cong_mod m (coeff (a f)) (coeff (a R)) (monom (e1 + nat k * e2))"
proof (induction "nat k" arbitrary: k r res e1 e2 rule: less_induct)
  case less
  show ?case
  proof (cases "0 < k")
    case False
    then have "PowX_loop k r res f = Some (Inr res)"
      by (subst PowX_loop.simps) simp
    moreover have "nat k = 0" using False by simp
    ultimately show ?thesis
      using less.prems by simp
  next
    case True
    define k' where "k' = drop_bit 1 k"
    have k': "k' = k div 2" by (simp add: k'_def drop_bit_eq_div)
    have smaller: "nat k' < nat k" using True k' by simp
    obtain Qr r' where r': "DivMod (Multiply r r) f = Some (Inr (Qr, r'))" "invariants r'" "p r' = m"
        "cong_mod m (coeff (a f)) (coeff (a r')) (monom (e2 + e2))"
      using mulmod [OF pr f less.prems(1,2) less.prems(1) less.prems(6) less.prems(6) mb] by blast
    show ?thesis
    proof (cases "k AND 1 \<noteq> 0")
      case True
      then have odd: "k mod 2 = 1" by (simp add: and_one_eq)
      obtain Qs res' where res': "DivMod (Multiply res r) f = Some (Inr (Qs, res'))" "invariants res'"
          "p res' = m" "reduced f res'" "cong_mod m (coeff (a f)) (coeff (a res')) (monom (e1 + e2))"
        using mulmod [OF pr f less.prems(3,4) less.prems(1) less.prems(7) less.prems(6) mb] by blast
      have unfold: "PowX_loop k r res f = PowX_loop k' r' res' f"
        using \<open>0 < k\<close> True r'(1) res'(1)
        by (subst PowX_loop.simps) (simp add: bind_res_def k'_def)
      obtain R where R: "PowX_loop k' r' res' f = Some (Inr R)" "invariants R" "p R = m" "reduced f R"
          "cong_mod m (coeff (a f)) (coeff (a R)) (monom (e1 + e2 + nat k' * (e2 + e2)))"
        using less.hyps [OF smaller r'(2,3) res'(2,3,4) r'(4) res'(5)] by blast
      have "k = 2 * k' + 1" "0 \<le> k'"
        using odd \<open>0 < k\<close> k' by presburger+
      then have "nat k = 2 * nat k' + 1"
        by (simp add: nat_add_distrib nat_mult_distrib)
      then have eq: "e1 + e2 + nat k' * (e2 + e2) = e1 + nat k * e2"
        by (simp add: algebra_simps)
      show ?thesis
        unfolding unfold using R(1-4) R(5) [unfolded eq] by blast
    next
      case False
      then have even: "k mod 2 = 0" by (simp add: and_one_eq)
      have unfold: "PowX_loop k r res f = PowX_loop k' r' res f"
        using \<open>0 < k\<close> False r'(1)
        by (subst PowX_loop.simps) (simp add: bind_res_def k'_def)
      obtain R where R: "PowX_loop k' r' res f = Some (Inr R)" "invariants R" "p R = m" "reduced f R"
          "cong_mod m (coeff (a f)) (coeff (a R)) (monom (e1 + nat k' * (e2 + e2)))"
        using less.hyps [OF smaller r'(2,3) less.prems(3,4,5) r'(4) less.prems(7)] by blast
      have "k = 2 * k'" "0 \<le> k'"
        using even \<open>0 < k\<close> k' by presburger+
      then have "nat k = 2 * nat k'"
        by (simp add: nat_mult_distrib)
      then have eq: "e1 + nat k' * (e2 + e2) = e1 + nat k * e2"
        by (simp add: algebra_simps)
      show ?thesis
        unfolding unfold using R(1-4) R(5) [unfolded eq] by blast
    qed
  qed
qed

lemma Poly_vec_fixed:
  assumes "0 < m" and "invariants \<lparr>p = m, a = xs\<rparr>" and "m \<le> 2 ^ 30"
  shows "Poly_vec xs m = \<lparr>p = m, a = xs\<rparr>"
  unfolding Poly_vec_def by (rule Normalize_fixed) (use assms in simp_all)

lemma Poly_vec_x: "1 < m \<Longrightarrow> m \<le> 2 ^ 30 \<Longrightarrow> Poly_vec [0, 1] m = \<lparr>p = m, a = [0, 1]\<rparr>"
  by (rule Poly_vec_fixed) (simp_all add: invariants_def)

lemma Poly_vec_one: "1 < m \<Longrightarrow> m \<le> 2 ^ 30 \<Longrightarrow> Poly_vec [1] m = \<lparr>p = m, a = [1]\<rparr>"
  by (rule Poly_vec_fixed) (simp_all add: invariants_def)

lemma coeff_x: "coeff [0, 1] = monom 1"
  by (rule ext) (auto simp: coeff_def monom_def nth_Cons split: nat.splits)

lemma coeff_one: "coeff [1] = monom 0"
  by (rule ext) (auto simp: coeff_def monom_def)

lemma PowX_correct:
  assumes pr: "is_prime (p f)" and f: "invariants f" and deg: "1 \<le> Degree f"
    and pb: "p f \<le> 2 ^ 30"
  shows "\<exists>R. PowX k f = Some (Inr R) \<and> invariants R \<and> p R = p f \<and> reduced f R \<and>
       cong_mod (p f) (coeff (a f)) (coeff (a R)) (monom (nat k))"
proof -
  define m where "m = p f"
  have m: "1 < m" using pr by (simp add: is_prime_def m_def)
  have mb: "m \<le> 2 ^ 30" using pb by (simp add: m_def)
  have len: "2 \<le> length (a f)" using deg by (simp add: Degree_def)
  then have nz: "a f \<noteq> [0]" by auto
  have x: "invariants \<lparr>p = m, a = [0, 1]\<rparr>" and one: "invariants \<lparr>p = m, a = [1]\<rparr>"
    using m by (simp_all add: invariants_def)
  have red: "reduced f \<lparr>p = m, a = [1]\<rparr>"
    using len by (simp add: reduced_def)
  have "\<exists>R. PowX_loop k \<lparr>p = m, a = [0, 1]\<rparr> \<lparr>p = m, a = [1]\<rparr> f = Some (Inr R) \<and> invariants R \<and> p R = m \<and>
      reduced f R \<and> cong_mod m (coeff (a f)) (coeff (a R)) (monom (0 + nat k * 1))"
    by (rule PowX_loop_correct [OF _ f _ nz mb x _ one _ red])
       (use pr in \<open>simp_all add: m_def [symmetric] coeff_x coeff_one cong_mod_refl\<close>)
  then show ?thesis
    using m mb by (simp add: PowX_def m_def [symmetric] Poly_vec_x Poly_vec_one)
qed

lemma PowX_add:
  assumes pr: "is_prime (p f)" and f: "invariants f" and deg: "1 \<le> Degree f"
    and k: "0 \<le> k1" "0 \<le> k2" and pb: "p f \<le> 2 ^ 30"
  shows "\<exists>r1 r2 Q R. PowX k1 f = Some (Inr r1) \<and> PowX k2 f = Some (Inr r2) \<and>
      DivMod (Multiply r1 r2) f = Some (Inr (Q, R)) \<and> PowX (k1 + k2) f = Some (Inr R)"
proof -
  let ?F = "coeff (a f)" and ?m = "p f"
  have nz: "a f \<noteq> [0]" using deg by (auto simp: Degree_def)
  obtain r1 where r1: "PowX k1 f = Some (Inr r1)" "invariants r1" "p r1 = ?m"
      "cong_mod ?m ?F (coeff (a r1)) (monom (nat k1))"
    using PowX_correct [OF pr f deg pb, of k1] by blast
  obtain r2 where r2: "PowX k2 f = Some (Inr r2)" "invariants r2" "p r2 = ?m"
      "cong_mod ?m ?F (coeff (a r2)) (monom (nat k2))"
    using PowX_correct [OF pr f deg pb, of k2] by blast
  obtain r12 where r12: "PowX (k1 + k2) f = Some (Inr r12)" "invariants r12" "p r12 = ?m" "reduced f r12"
      "cong_mod ?m ?F (coeff (a r12)) (monom (nat (k1 + k2)))"
    using PowX_correct [OF pr f deg pb, of "k1 + k2"] by blast
  obtain Q R where R: "DivMod (Multiply r1 r2) f = Some (Inr (Q, R))" "invariants R" "p R = ?m" "reduced f R"
      "cong_mod ?m ?F (coeff (a R)) (monom (nat k1 + nat k2))"
    using mulmod [OF pr f refl nz r1(2,3) r2(2) r1(4) r2(4) pb] by blast
  have "nat (k1 + k2) = nat k1 + nat k2"
    using k by (simp add: nat_add_distrib)
  then have "cong_mod ?m ?F (coeff (a r12)) (coeff (a R))"
    using r12(5) R(5) cong_mod_sym cong_mod_trans by metis
  then have "r12 = R"
    by (rule remainder_unique [OF pr f refl nz r12(2,3,4) R(2,3,4)])
  then show ?thesis
    using r1(1) r2(1) R(1) r12(1) by blast
qed

section \<open>\<open>GCD\<close>, \<open>PrimeDivisors\<close> and \<open>IsIrreducible\<close> return\<close>

text \<open>The loop of \<open>GCD\<close> exits because the second argument gets shorter or becomes zero;
  the loops of \<open>PrimeDivisors\<close> exit because \<open>n\<close> does not grow while \<open>i\<close> does. With
  them \<open>IsIrreducible\<close> returns a verdict for every polynomial that satisfies the
  invariants over a prime modulus; for a polynomial of degree one the verdict is false.\<close>

lemma GCD_Poly_stop: "a B = [0] \<Longrightarrow> GCD_Poly A B = Some (Inr (Normalize A))"
  by (subst GCD_Poly.simps) simp

lemma GCD_Poly_step:
  "a B \<noteq> [0] \<Longrightarrow> DivMod A B = Some (Inr (Q, R)) \<Longrightarrow> GCD_Poly A B = GCD_Poly B R"
  using singleton_zero_iff [of "a B"] by (subst GCD_Poly.simps) auto

lemma GCD_Poly_total:
  assumes pr: "is_prime m" and mb: "m \<le> 2 ^ 30"
  shows "invariants A \<Longrightarrow> p A = m \<Longrightarrow> invariants B \<Longrightarrow> p B = m \<Longrightarrow>
     \<exists>G. GCD_Poly A B = Some (Inr G) \<and> invariants G \<and> p G = m"
proof (induction "if a B = [0] then 0 else length (a B)" arbitrary: A B rule: less_induct)
  case less
  have m: "0 < m" using pr by (simp add: is_prime_def)
  show ?case
  proof (cases "a B = [0]")
    case True
    have "Normalize A = A"
      by (rule Normalize_fixed) (use less.prems m mb in simp_all)
    then show ?thesis
      using True less.prems by (simp add: GCD_Poly_stop)
  next
    case False
    obtain Q R where res: "DivMod A B = Some (Inr (Q, R))" "invariants R" "p R = m"
        "a R = [0] \<or> length (a R) < length (a B)"
      using DivMod_correct [of A B] pr mb less.prems False by auto
    have "a B \<noteq> []" using less.prems(3) by (simp add: invariants_def)
    then have "(if a R = [0] then 0 else length (a R)) < (if a B = [0] then 0 else length (a B))"
      using res(4) False by auto
    then have "\<exists>G. GCD_Poly B R = Some (Inr G) \<and> invariants G \<and> p G = m"
      using less.hyps less.prems(3,4) res(2,3) by blast
    then show ?thesis
      using GCD_Poly_step [OF False res(1)] by simp
  qed
qed

lemma PrimeDivisors_strip_total:
  "0 < n \<Longrightarrow> 2 \<le> i \<Longrightarrow> \<exists>n'. PrimeDivisors_strip n i = Some n' \<and> 0 < n' \<and> n' \<le> n"
proof (induction "nat n" arbitrary: n rule: less_induct)
  case less
  show ?case
  proof (cases "n smod i = 0")
    case False
    then have "PrimeDivisors_strip n i = Some n"
      by (subst PrimeDivisors_strip.simps) simp
    then show ?thesis using less.prems by simp
  next
    case True
    have sm: "n smod i = n mod i" and sd: "n sdiv i = n div i"
      using less.prems by (simp_all add: signed_modulo_int_def signed_divide_int_def sgn_if)
    have dv: "i dvd n" using True sm by (simp add: dvd_eq_mod_eq_0)
    have pos: "0 < n div i"
      using dv less.prems by (simp add: pos_imp_zdiv_pos_iff zdvd_imp_le)
    have lt: "n div i < n"
      using less.prems by (simp add: int_div_less_self)
    then have "nat (n div i) < nat n" using pos by simp
    then obtain n' where "PrimeDivisors_strip (n div i) i = Some n'" "0 < n'" "n' \<le> n div i"
      using less.hyps [of "n div i"] pos less.prems(2) by blast
    moreover have "PrimeDivisors_strip n i = PrimeDivisors_strip (n div i) i"
      using True by (subst PrimeDivisors_strip.simps) (simp add: sd)
    ultimately show ?thesis using lt by auto
  qed
qed

lemma PrimeDivisors_loop_total:
  "2 \<le> i \<Longrightarrow> \<forall>q \<in> set d. 2 \<le> q \<Longrightarrow>
   \<exists>n' d'. PrimeDivisors_loop i n d = Some (n', d') \<and> (\<forall>q \<in> set d'. 2 \<le> q)"
proof (induction "nat (n + 1 - i)" arbitrary: i n d rule: less_induct)
  case less
  show ?case
  proof (cases "i * i \<le> n")
    case False
    then have "PrimeDivisors_loop i n d = Some (n, d)"
      by (subst PrimeDivisors_loop.simps) simp
    then show ?thesis using less.prems by simp
  next
    case True
    have "i \<le> i * i" using less.prems(1) by (simp add: self_le_power [of i 2, unfolded power2_eq_square])
    then have in': "i \<le> n" "0 < n" using True less.prems(1) by linarith+
    show ?thesis
    proof (cases "n smod i = 0")
      case False
      have dec: "nat (n + 1 - (i + 1)) < nat (n + 1 - i)" using in' by simp
      have "PrimeDivisors_loop i n d = PrimeDivisors_loop (i + 1) n d"
        using True False by (subst PrimeDivisors_loop.simps) simp
      then show ?thesis
        using less.hyps [OF dec, of d] less.prems by simp
    next
      case yes: True
      obtain n1 where n1: "PrimeDivisors_strip n i = Some n1" "0 < n1" "n1 \<le> n"
        using PrimeDivisors_strip_total [OF in'(2) less.prems(1)] by blast
      have dec: "nat (n1 + 1 - (i + 1)) < nat (n + 1 - i)" using in' n1 by simp
      have "PrimeDivisors_loop i n d = PrimeDivisors_loop (i + 1) n1 (d @ [i])"
        using True yes n1(1) by (subst PrimeDivisors_loop.simps) simp
      then show ?thesis
        using less.hyps [OF dec, of "d @ [i]"] less.prems by simp
    qed
  qed
qed

lemma PrimeDivisors_total: "\<exists>ds. PrimeDivisors n = Some ds \<and> (\<forall>q \<in> set ds. 2 \<le> q)"
proof -
  obtain n' d' where "PrimeDivisors_loop 2 n [] = Some (n', d')" "\<forall>q \<in> set d'. 2 \<le> q"
    using PrimeDivisors_loop_total [of 2 "[]" n] by auto
  then show ?thesis
    by (auto simp: PrimeDivisors_def)
qed

lemma IsIrreducible_loop_total:
  assumes pr: "is_prime (p f)" and f: "invariants f" and deg: "1 \<le> Degree f"
    and pb: "p f \<le> 2 ^ 30"
  shows "\<exists>b. IsIrreducible_loop f n divs = Some (Inr b)"
proof (induction divs)
  case Nil
  show ?case by (rule exI [of _ True]) simp
next
  case (Cons q divs)
  have m: "1 < p f" using pr by (simp add: is_prime_def)
  obtain x where x: "PowX (PowInt (p f) (n sdiv q)) f = Some (Inr x)" "invariants x" "p x = p f"
    using PowX_correct [OF pr f deg pb] by blast
  have "a x \<noteq> []" using x(2) by (simp add: invariants_def)
  then have "invariants (Subtract x (Poly_vec [0, 1] (p f)))"
    by (intro invariants_Subtract) (use x(3) m pb in simp_all)
  moreover have "p (Subtract x (Poly_vec [0, 1] (p f))) = p f"
    by (simp add: p_Subtract x(3))
  ultimately have h: "invariants (Subtract x (Poly_vec [0, 1] (p f)))"
      "p (Subtract x (Poly_vec [0, 1] (p f))) = p f"
    by simp_all
  obtain g where g: "GCD_Poly f (Subtract x (Poly_vec [0, 1] (p f))) = Some (Inr g)"
    using GCD_Poly_total [OF pr pb f refl h] by blast
  show ?case
    using Cons x(1) g by (auto simp: bind_res_def)
qed

lemma IsIrreducible_total:
  assumes pr: "is_prime (p f)" and f: "invariants f" and pb: "p f \<le> 2 ^ 30"
  shows "\<exists>b. IsIrreducible f = Some (Inr b)"
proof (cases "Degree f \<le> 0")
  case True
  then show ?thesis by (intro exI [of _ False]) (simp add: IsIrreducible_def)
next
  case False
  then have deg: "1 \<le> Degree f" by simp
  obtain x where x: "PowX (PowInt (p f) (Degree f)) f = Some (Inr x)"
    using PowX_correct [OF pr f deg pb] by blast
  obtain ds where ds: "PrimeDivisors (Degree f) = Some ds"
    using PrimeDivisors_total by blast
  obtain b where b: "IsIrreducible_loop f (Degree f) ds = Some (Inr b)"
    using IsIrreducible_loop_total [OF pr f deg pb] by blast
  show ?thesis
    using False x ds b by (auto simp: IsIrreducible_def bind_res_def Let_def)
qed

lemma IsIrreducible_linear:
  assumes pr: "is_prime (p f)" and f: "invariants f" and deg: "Degree f = 1"
    and pb: "p f \<le> 2 ^ 30"
  shows "\<exists>x. PowX (PowInt (p f) (Degree f)) f = Some (Inr x) \<and> Degree x = 0 \<and>
           a (Subtract x (Poly_vec [0, 1] (p f))) \<noteq> [0] \<and>
           IsIrreducible f = Some (Inr False)"
proof -
  have m: "1 < p f" using pr by (simp add: is_prime_def)
  have deg1: "1 \<le> Degree f" using deg by simp
  obtain x where x: "PowX (PowInt (p f) (Degree f)) f = Some (Inr x)" "invariants x" "p x = p f"
      "reduced f x"
    using PowX_correct [OF pr f deg1 pb] by blast
  have len: "length (a f) = 2" using deg by (simp add: Degree_def)
  have "a x \<noteq> []" using x(2) by (simp add: invariants_def)
  then have "length (a x) = 1"
    using x(4) len by (cases "a x") (auto simp: reduced_def)
  then have dx: "Degree x = 0" by (simp add: Degree_def)
  have "coeff (a x) 1 = 0"
    using x(4) len by (intro reduced_vanish [of f]) simp_all
  let ?t = "Subtract x (Poly_vec [0, 1] (p f))"
  have cx: "canonical (p x) (a x)"
    by (rule invariants_canonical [OF x(2)])
  have c1: "canonical (p x) [0, 1]"
    using m x(3) by (simp add: canonical_def)
  have "coeff (a ?t) 1 = (coeff (a x) 1 - coeff [0, 1] 1) mod p f"
    using m pb x(3) cx c1 by (simp add: coeff_Subtract Poly_vec_x)
  also have "\<dots> = (- 1) mod p f"
    using \<open>coeff (a x) 1 = 0\<close> by (simp add: coeff_def)
  also have "\<dots> = p f - 1"
    using m by (simp add: zmod_minus1)
  finally have "coeff (a ?t) 1 \<noteq> 0" using m by simp
  then have nz: "a ?t \<noteq> [0]" by (auto simp: coeff_def)
  then have "\<not> (length (a ?t) = 1 \<and> a ?t ! 0 = 0)"
    using singleton_zero_iff [of "a ?t"] by simp
  then have "IsIrreducible f = Some (Inr False)"
    using x(1) deg by (simp add: IsIrreducible_def bind_res_def Let_def)
  then show ?thesis
    using x(1) dx nz by blast
qed

text \<open>The product of two polynomials of positive degree over a prime modulus has degree at
  least two.\<close>

lemma Multiply_degree:
  assumes pr: "is_prime m" and g: "invariants g" "p g = m" "1 \<le> Degree g"
    and h: "invariants h" "p h = m" "1 \<le> Degree h" and mb: "m \<le> 2 ^ 30"
  shows "coeff (a (Multiply g h)) (length (a g) - 1 + (length (a h) - 1)) \<noteq> 0"
proof -
  have m: "0 < m" using pr by (simp add: is_prime_def)
  have nz: "a g \<noteq> [0]" "a h \<noteq> [0]"
    using g(3) h(3) by (auto simp: Degree_def)
  note lg = invariants_nonzero_lead [OF pr g(1,2) nz(1)]
  note lh = invariants_nonzero_lead [OF pr h(1,2) nz(2)]
  let ?i = "length (a g) - 1" and ?j = "length (a h) - 1"
  have "conv (coeff (a g)) (coeff (a h)) (?i + ?j) mod m
      = (coeff (a g) ?i * coeff (a h) ?j) mod m"
    by (rule conv_top [OF lg(1) lh(1)])
  moreover have "(coeff (a g) ?i * coeff (a h) ?j) mod m \<noteq> 0"
    using is_prime_mult_mod [OF pr, of "coeff (a g) ?i" "coeff (a h) ?j"] lg(2) lh(2) by auto
  ultimately show ?thesis
    using m mb g(2) by (simp add: coeff_Multiply)
qed

lemma linear_irreducible:
  assumes pr: "is_prime (p f)" and deg: "Degree f = 1" and pb: "p f \<le> 2 ^ 30"
  shows "irreducible_GF f"
  unfolding irreducible_GF_def
proof (intro conjI notI)
  show "1 \<le> Degree f" using deg by simp
next
  assume "\<exists>g h. invariants g \<and> invariants h \<and> p g = p f \<and> p h = p f \<and>
            1 \<le> Degree g \<and> 1 \<le> Degree h \<and> Multiply g h = f"
  then obtain g h where gh: "invariants g" "invariants h" "p g = p f" "p h = p f"
      "1 \<le> Degree g" "1 \<le> Degree h" "Multiply g h = f"
    by blast
  have "coeff (a f) (length (a g) - 1 + (length (a h) - 1)) \<noteq> 0"
    using Multiply_degree [OF pr gh(1,3,5) gh(2,4,6) pb] gh(7) by simp
  moreover have "length (a f) \<le> length (a g) - 1 + (length (a h) - 1)"
    using deg gh(5,6) by (simp add: Degree_def)
  ultimately show False
    by (simp add: coeff_def)
qed

section \<open>The claims\<close>

subsection \<open>C1: \<open>IsIrreducible\<close> against irreducibility\<close>

text \<open>
  Claim C1 says that \<open>IsIrreducible(f)\<close> is true exactly when \<open>f\<close> is irreducible over
  \<open>GF(p)\<close>. The program does not do that for polynomials of degree one. At \<open>f = x\<close> over
  \<open>GF(2)\<close> (coefficients \<open>[0, 1]\<close>): \<open>f\<close> is irreducible, since a product of two
  polynomials of positive degree has degree at least two, and \<open>IsIrreducible\<close> returns
  false. The first test compares \<open>x^(p^n) mod f\<close>, a constant when \<open>n = 1\<close>, with the
  polynomial \<open>x\<close> itself rather than with \<open>x mod f\<close>.
\<close>

theorem IsIrreducible_rejects_x:
  "irreducible_GF \<lparr>p = 2, a = [0, 1]\<rparr> \<and> IsIrreducible \<lparr>p = 2, a = [0, 1]\<rparr> = Some (Inr False)"
proof
  show "irreducible_GF \<lparr>p = 2, a = [0, 1]\<rparr>"
    by (rule linear_irreducible) (simp_all add: is_prime_def Degree_def)
  show "IsIrreducible \<lparr>p = 2, a = [0, 1]\<rparr> = Some (Inr False)"
    by code_simp
qed

text \<open>The verdict of the program alone, read off the theorem.\<close>

theorem IsIrreducible_rejects_x_witness:
  "IsIrreducible \<lparr>p = 2, a = [0, 1]\<rparr> = Some (Inr False)"
  using IsIrreducible_rejects_x by simp

subsection \<open>C2: the contract of \<open>DivMod\<close>\<close>

text \<open>
  Claim C2 says that \<open>DivMod(A, d)\<close> returns \<open>(Q, R)\<close> with \<open>Q * d + R = A\<close>, with \<open>R\<close> zero
  or \<open>Degree(R) < Degree(d)\<close>, and with both outputs normalized. The program keeps the
  first two for every input over a prime modulus up to \<open>2^30\<close> (\<open>DivMod_division\<close>), and
  the third for the remainder. The
  quotient is sized with \<open>max(0, Degree(A) - Degree(d) + 1)\<close>: when
  \<open>Degree(A) < Degree(d)\<close> it has no coefficient, \<open>Normalize\<close> leaves it so, and what
  \<open>DivMod\<close> returns is not the zero polynomial \<open>[0]\<close> but a value of degree \<open>-1\<close> that breaks
  the invariants. At \<open>A = 3\<close> and \<open>d = x + 1\<close> over \<open>GF(5)\<close>:
\<close>

theorem DivMod_quotient_empty:
  "DivMod \<lparr>p = 5, a = [3]\<rparr> \<lparr>p = 5, a = [1, 1]\<rparr>
     = Some (Inr (\<lparr>p = 5, a = []\<rparr>, \<lparr>p = 5, a = [3]\<rparr>)) \<and>
   \<not> invariants \<lparr>p = 5, a = []\<rparr> \<and> Degree \<lparr>p = 5, a = []\<rparr> = - 1 \<and>
   Add (Multiply \<lparr>p = 5, a = []\<rparr> \<lparr>p = 5, a = [1, 1]\<rparr>) \<lparr>p = 5, a = [3]\<rparr> = \<lparr>p = 5, a = [3]\<rparr>"
proof (intro conjI)
  show "DivMod \<lparr>p = 5, a = [3]\<rparr> \<lparr>p = 5, a = [1, 1]\<rparr>
     = Some (Inr (\<lparr>p = 5, a = []\<rparr>, \<lparr>p = 5, a = [3]\<rparr>))"
    by code_simp
  show "\<not> invariants \<lparr>p = 5, a = []\<rparr>"
    by (simp add: invariants_def)
  show "Degree \<lparr>p = 5, a = []\<rparr> = - 1"
    by (simp add: Degree_def)
  show "Add (Multiply \<lparr>p = 5, a = []\<rparr> \<lparr>p = 5, a = [1, 1]\<rparr>) \<lparr>p = 5, a = [3]\<rparr> = \<lparr>p = 5, a = [3]\<rparr>"
    by code_simp
qed

text \<open>The pair that \<open>DivMod\<close> returns there, read off the theorem.\<close>

theorem DivMod_quotient_empty_witness:
  "DivMod \<lparr>p = 5, a = [3]\<rparr> \<lparr>p = 5, a = [1, 1]\<rparr>
     = Some (Inr (\<lparr>p = 5, a = []\<rparr>, \<lparr>p = 5, a = [3]\<rparr>))"
  using DivMod_quotient_empty by simp

subsection \<open>C3: the invariants of returned polynomials\<close>

text \<open>
  Claim C3 says that every polynomial a public operation returns satisfies the three
  invariants, the third being that the coefficient sequence is not empty. Two
  operations return an empty sequence. The constructor from a raw sequence keeps an empty
  sequence empty (\<open>Normalize\<close> touches nothing); and \<open>DivMod\<close> sizes the quotient with
  \<open>max(0, Degree(A) - Degree(d) + 1)\<close>, so for \<open>A = 1\<close> and \<open>d = x\<close> over \<open>GF(2)\<close> the
  quotient it returns has no coefficient at all. For non-empty inputs over a modulus up to
  \<open>2^30\<close> the other operations do keep the invariants (\<open>invariants_Poly_vec\<close>, \<open>invariants_Add\<close>,
  \<open>invariants_Subtract\<close>, \<open>invariants_Multiply\<close>, \<open>DivMod_correct\<close>,
  \<open>GCD_Poly_total\<close>, \<open>PowX_correct\<close>).
\<close>

theorem invariants_violated:
  "a (Poly_vec [] 2) = [] \<and> \<not> invariants (Poly_vec [] 2) \<and>
   DivMod (Poly_vec [1] 2) (Poly_vec [0, 1] 2) = Some (Inr (\<lparr>p = 2, a = []\<rparr>, \<lparr>p = 2, a = [1]\<rparr>)) \<and>
   \<not> invariants \<lparr>p = 2, a = []\<rparr>"
proof (intro conjI)
  show e: "a (Poly_vec [] 2) = []"
    by code_simp
  show "\<not> invariants (Poly_vec [] 2)"
    using e by (simp add: invariants_def)
  show "DivMod (Poly_vec [1] 2) (Poly_vec [0, 1] 2) = Some (Inr (\<lparr>p = 2, a = []\<rparr>, \<lparr>p = 2, a = [1]\<rparr>))"
    by code_simp
  show "\<not> invariants \<lparr>p = 2, a = []\<rparr>"
    by (simp add: invariants_def)
qed

text \<open>The two empty results alone, read off the theorem.\<close>

theorem invariants_violated_witness:
  "a (Poly_vec [] 2) = [] \<and>
   DivMod (Poly_vec [1] 2) (Poly_vec [0, 1] 2) = Some (Inr (\<lparr>p = 2, a = []\<rparr>, \<lparr>p = 2, a = [1]\<rparr>))"
  using invariants_violated by simp

subsection \<open>C4: two scenarios of the specification\<close>

text \<open>
  Claim C4. Over the modulus 2, \<open>IsIrreducible\<close> returns true for the polynomial built from
  the coefficients \<open>[1, 1, 1]\<close> (\<open>x^2 + x + 1\<close>) and false for the one built from
  \<open>[1, 0, 1]\<close> (\<open>x^2 + 1\<close>).
\<close>

theorem IsIrreducible_scenarios:
  "IsIrreducible (Poly_vec [1, 1, 1] 2) = Some (Inr True) \<and>
   IsIrreducible (Poly_vec [1, 0, 1] 2) = Some (Inr False)"
  by code_simp

subsection \<open>C5: division by the zero polynomial\<close>

text \<open>
  Claim C5. \<open>DivMod\<close> with the canonical zero polynomial (the single coefficient 0, as
  \<open>Poly(int mod)\<close> builds it) as divisor throws ``division by zero polynomial'' for every
  dividend and every modulus. The test is the first statement of the method: the result
  does not depend on the dividend, which need not even satisfy the invariants, and no pair
  is returned.
\<close>

theorem DivMod_zero_divisor:
  "DivMod A \<lparr>p = m, a = [0]\<rparr> = Some (Inl DivisionByZeroPolynomial) \<and>
   DivMod A (Poly_mod m) = Some (Inl DivisionByZeroPolynomial)"
  by (simp add: DivMod_def Degree_def Poly_mod_def)

subsection \<open>C6: \<open>PowX\<close> turns sums of exponents into products\<close>

text \<open>
  Claim C6, as amended. For all exponents \<open>k1, k2 \<ge> 0\<close> whose sum is below \<open>2^63\<close>
  (\<open>PowX\<close> takes a \<open>long long\<close>) and every \<open>f\<close> of degree at least one that satisfies the
  invariants over a prime modulus below \<open>2^30\<close>, the four calls return and
  \<open>PowX(k1 + k2, f)\<close> is the remainder of \<open>DivMod(PowX(k1, f) * PowX(k2, f), f)\<close>.
\<close>

theorem PowX_additive:
  assumes "is_prime (p f)" and "p f < 2 ^ 30" and "invariants f" and "1 \<le> Degree f"
    and "0 \<le> k1" and "0 \<le> k2" and "k1 + k2 < 2 ^ 63"
  shows "\<exists>r1 r2 Q R. PowX k1 f = Some (Inr r1) \<and> PowX k2 f = Some (Inr r2) \<and>
           DivMod (Multiply r1 r2) f = Some (Inr (Q, R)) \<and> PowX (k1 + k2) f = Some (Inr R)"
proof -
  have "p f \<le> 2 ^ 30"
    using assms(2) by simp
  with assms(1,3,4,5,6) show ?thesis
    by (rule PowX_add)
qed

text \<open>
  The claim as stated, for every prime modulus, fails above \<open>2^30\<close>, where
  \<open>(x % p + p) % p\<close> and the sums of \<open>operator +\<close> and \<open>operator -\<close> leave \<open>int\<close>. Over
  \<open>p = 2147483647\<close> (the prime \<open>2^31 - 1\<close>) and \<open>f = x^2 + 1\<close>, which satisfies the
  invariants: \<open>PowX(1, f)\<close> is \<open>[0, p - 1]\<close>, the remainder of its square by \<open>f\<close> is \<open>[-3]\<close>,
  and \<open>PowX(1 + 1, f)\<close> is \<open>[1]\<close>.
\<close>

theorem PowX_not_additive:
  "invariants \<lparr>p = 2147483647, a = [1, 0, 1]\<rparr> \<and> Degree \<lparr>p = 2147483647, a = [1, 0, 1]\<rparr> = 2 \<and>
   PowX 1 \<lparr>p = 2147483647, a = [1, 0, 1]\<rparr> = Some (Inr \<lparr>p = 2147483647, a = [0, 2147483646]\<rparr>) \<and>
   DivMod (Multiply \<lparr>p = 2147483647, a = [0, 2147483646]\<rparr> \<lparr>p = 2147483647, a = [0, 2147483646]\<rparr>)
       \<lparr>p = 2147483647, a = [1, 0, 1]\<rparr>
     = Some (Inr (\<lparr>p = 2147483647, a = [- 1]\<rparr>, \<lparr>p = 2147483647, a = [- 3]\<rparr>)) \<and>
   PowX (1 + 1) \<lparr>p = 2147483647, a = [1, 0, 1]\<rparr> = Some (Inr \<lparr>p = 2147483647, a = [1]\<rparr>)"
proof (intro conjI)
  show "invariants \<lparr>p = 2147483647, a = [1, 0, 1]\<rparr>"
    by (simp add: invariants_def)
  show "Degree \<lparr>p = 2147483647, a = [1, 0, 1]\<rparr> = 2"
    by (simp add: Degree_def)
  show "PowX 1 \<lparr>p = 2147483647, a = [1, 0, 1]\<rparr> = Some (Inr \<lparr>p = 2147483647, a = [0, 2147483646]\<rparr>)"
    by code_simp
  show "DivMod (Multiply \<lparr>p = 2147483647, a = [0, 2147483646]\<rparr> \<lparr>p = 2147483647, a = [0, 2147483646]\<rparr>)
       \<lparr>p = 2147483647, a = [1, 0, 1]\<rparr>
     = Some (Inr (\<lparr>p = 2147483647, a = [- 1]\<rparr>, \<lparr>p = 2147483647, a = [- 3]\<rparr>))"
    by code_simp
  show "PowX (1 + 1) \<lparr>p = 2147483647, a = [1, 0, 1]\<rparr> = Some (Inr \<lparr>p = 2147483647, a = [1]\<rparr>)"
    by code_simp
qed

theorem PowX_additive_witness:
  "\<exists>r1 r2 Q R. PowX 3 \<lparr>p = 2, a = [1, 1, 1]\<rparr> = Some (Inr r1) \<and>
      PowX 4 \<lparr>p = 2, a = [1, 1, 1]\<rparr> = Some (Inr r2) \<and>
      DivMod (Multiply r1 r2) \<lparr>p = 2, a = [1, 1, 1]\<rparr> = Some (Inr (Q, R)) \<and>
      PowX (3 + 4) \<lparr>p = 2, a = [1, 1, 1]\<rparr> = Some (Inr R)"
  using PowX_additive [of "\<lparr>p = 2, a = [1, 1, 1]\<rparr>" 3 4]
  by (simp add: is_prime_def invariants_def Degree_def)

subsection \<open>C7: \<open>Normalize\<close> against its reference procedure\<close>

text \<open>
  Claim C7, as amended. For every coefficient sequence (the empty one included) and every
  modulus from 1 to \<open>2^30\<close>, \<open>Normalize\<close>, which drops the high coefficients divisible by
  \<open>p\<close> first and reduces afterwards, returns exactly what the reference procedure returns,
  which reduces first and drops zeros afterwards; and normalizing twice is normalizing
  once.
\<close>

theorem Normalize_refines_spec:
  assumes "0 < p f" and "p f \<le> 2 ^ 30"
  shows "Normalize f = Normalize_spec f \<and> Normalize (Normalize f) = Normalize f"
  using Normalize_eq_spec [OF assms] Normalize_idem [OF assms] by simp

text \<open>
  The claim as stated, for every modulus, fails above \<open>2^30\<close>: the sum \<open>x % p + p\<close> leaves
  \<open>int\<close>. For the modulus \<open>2147483647\<close> and the sequence \<open>[1]\<close> the program returns \<open>[-1]\<close>
  where the reference procedure returns \<open>[1]\<close>, and a second call returns \<open>[2147483646]\<close>;
  for the modulus \<open>2^30 + 1\<close> and the sequence \<open>[2^30]\<close>, already reduced, it returns
  \<open>[-1073741822]\<close>.
\<close>

theorem Normalize_overflow:
  "Normalize \<lparr>p = 2147483647, a = [1]\<rparr> = \<lparr>p = 2147483647, a = [- 1]\<rparr> \<and>
   Normalize_spec \<lparr>p = 2147483647, a = [1]\<rparr> = \<lparr>p = 2147483647, a = [1]\<rparr> \<and>
   Normalize (Normalize \<lparr>p = 2147483647, a = [1]\<rparr>) = \<lparr>p = 2147483647, a = [2147483646]\<rparr> \<and>
   Normalize \<lparr>p = 1073741825, a = [1073741824]\<rparr> = \<lparr>p = 1073741825, a = [- 1073741822]\<rparr> \<and>
   Normalize_spec \<lparr>p = 1073741825, a = [1073741824]\<rparr> = \<lparr>p = 1073741825, a = [1073741824]\<rparr>"
  by code_simp

theorem Normalize_refines_spec_witness:
  "Normalize \<lparr>p = 3, a = [4, - 1, 3, 0]\<rparr> = Normalize_spec \<lparr>p = 3, a = [4, - 1, 3, 0]\<rparr> \<and>
   Normalize (Normalize \<lparr>p = 3, a = [4, - 1, 3, 0]\<rparr>) = Normalize \<lparr>p = 3, a = [4, - 1, 3, 0]\<rparr>"
  by (rule Normalize_refines_spec) simp_all

subsection \<open>C8: \<open>InvMod\<close>\<close>

text \<open>
  Claim C8, as amended. For every \<open>int\<close> \<open>x\<close> and every modulus \<open>m\<close> from 2 to \<open>2^30\<close>:
  \<open>InvMod\<close> throws ``element is not invertible'' when \<open>gcd(x, m) \<noteq> 1\<close>; whenever it returns,
  the result is the canonical representative \<open>r\<close> in \<open>[0, m - 1]\<close> with \<open>(x * r) mod m = 1\<close>;
  and it returns whenever \<open>gcd(x, m) = 1\<close> and \<open>x \<ge> 0\<close>.
\<close>

theorem InvMod_spec:
  assumes "2 \<le> m" and "m \<le> 2 ^ 30" and "- (2 ^ 31) \<le> x" and "x < 2 ^ 31"
  shows "(gcd x m \<noteq> 1 \<longrightarrow> InvMod x m = Inl NotInvertible) \<and>
         (\<forall>r. InvMod x m = Inr r \<longrightarrow> 0 \<le> r \<and> r < m \<and> (x * r) mod m = 1) \<and>
         (0 \<le> x \<and> gcd x m = 1 \<longrightarrow> (\<exists>r. InvMod x m = Inr r))"
proof (intro conjI allI impI)
  have m: "0 < m" "1 < m"
    using assms(1) by simp_all
  show "InvMod x m = Inl NotInvertible" if "gcd x m \<noteq> 1"
    using that m(1) assms(2,3,4) by (rule InvMod_fails)
  show "0 \<le> r" "r < m" "(x * r) mod m = 1" if "InvMod x m = Inr r" for r
    using InvMod_sound [OF m(2) that assms(2,3,4)] by simp_all
  show "\<exists>r. InvMod x m = Inr r" if "0 \<le> x \<and> gcd x m = 1"
    using InvMod_returns [of x m] that m(1) assms(2,4) by simp
qed

text \<open>
  The claim as stated fails in three places. For a negative \<open>x\<close> the loop can end with
  \<open>r0 = -1\<close>, and the test \<open>r0 != 1\<close> then throws although the greatest common divisor is 1:
  so for \<open>x = -1\<close> and \<open>m = 3\<close>. For the modulus 1, which is positive, no \<open>r\<close> has
  \<open>(x * r) mod 1 = 1\<close>. And for a modulus above \<open>2^30\<close> the sum \<open>s0 % p + p\<close> of the last
  line leaves \<open>int\<close>: for \<open>x = 1\<close> and \<open>m = 2147483647\<close> the result is \<open>-1\<close>.
\<close>

theorem InvMod_counterexample:
  "gcd (- 1) (3 :: int) = 1 \<and> InvMod (- 1) 3 = Inl NotInvertible \<and>
   gcd 0 (1 :: int) = 1 \<and> InvMod 0 1 = Inr 0 \<and> (0 * 0) mod (1 :: int) \<noteq> 1 \<and>
   gcd 1 (2147483647 :: int) = 1 \<and> InvMod 1 2147483647 = Inr (- 1)"
proof (intro conjI)
  show "gcd (- 1) (3 :: int) = 1" by simp
  show "InvMod (- 1) 3 = Inl NotInvertible" by code_simp
  show "gcd 0 (1 :: int) = 1" by simp
  show "InvMod 0 1 = Inr 0" by code_simp
  show "(0 * 0) mod (1 :: int) \<noteq> 1" by simp
  show "gcd 1 (2147483647 :: int) = 1" by simp
  show "InvMod 1 2147483647 = Inr (- 1)" by code_simp
qed

theorem InvMod_spec_witness:
  "InvMod 5 3 = Inr 2 \<and> (5 * 2) mod (3 :: int) = 1 \<and> InvMod 6 4 = Inl NotInvertible"
proof -
  have g: "gcd (5 :: int) 3 = 1" "gcd (6 :: int) 4 \<noteq> 1"
    by code_simp+
  have "InvMod 5 3 = Inr 2"
    by code_simp
  then have "(5 * 2) mod (3 :: int) = 1"
    using InvMod_spec [of 3 5] by simp
  moreover have "InvMod 6 4 = Inl NotInvertible"
    using InvMod_spec [of 4 6] g(2) by simp
  ultimately show ?thesis
    using \<open>InvMod 5 3 = Inr 2\<close> by simp
qed

subsection \<open>C9: \<open>IsIrreducible\<close> returns\<close>

text \<open>
  Claim C9, as amended. For every \<open>f\<close> that satisfies the invariants over a prime modulus
  below \<open>2^30\<close>, \<open>IsIrreducible(f)\<close> returns a verdict: it neither loops nor throws. Every
  iteration of the loop of \<open>DivMod\<close> leaves a remainder with fewer coefficients or the zero
  polynomial; every iteration of \<open>GCD\<close> replaces the second argument by a polynomial with
  fewer coefficients or by the zero polynomial; and \<open>PowX\<close> returns for every exponent
  (its loop is defined by recursion on the exponent, halved at every step).
\<close>

theorem IsIrreducible_terminates:
  assumes pr: "is_prime (p f)" and pb: "p f < 2 ^ 30" and f: "invariants f"
  shows "(\<exists>b. IsIrreducible f = Some (Inr b)) \<and>
    (\<forall>d iv Q R. invariants d \<and> p d = p f \<and> a d \<noteq> [0] \<and> (last (a d) * iv) mod p f = 1 \<and>
        invariants R \<and> p R = p f \<and> DivMod_cond d R \<longrightarrow>
        length (a (snd (DivMod_body d (p f) iv (Q, R)))) < length (a R) \<or>
        a (snd (DivMod_body d (p f) iv (Q, R))) = [0]) \<and>
    (\<forall>A B. invariants A \<and> p A = p f \<and> invariants B \<and> p B = p f \<and> a B \<noteq> [0] \<longrightarrow>
        (\<exists>Q R. DivMod A B = Some (Inr (Q, R)) \<and> (length (a R) < length (a B) \<or> a R = [0]))) \<and>
    (\<forall>k. 1 \<le> Degree f \<longrightarrow> (\<exists>r. PowX k f = Some (Inr r)))"
proof (intro conjI allI impI)
  have m: "0 < p f" using pr by (simp add: is_prime_def)
  have mb: "p f \<le> 2 ^ 30" using pb by simp
  show "\<exists>b. IsIrreducible f = Some (Inr b)"
    by (rule IsIrreducible_total [OF pr f mb])
  show "length (a (snd (DivMod_body d (p f) iv (Q, R)))) < length (a R) \<or>
        a (snd (DivMod_body d (p f) iv (Q, R))) = [0]"
    if "invariants d \<and> p d = p f \<and> a d \<noteq> [0] \<and> (last (a d) * iv) mod p f = 1 \<and>
        invariants R \<and> p R = p f \<and> DivMod_cond d R" for d iv Q R
    using that m mb by (intro DivMod_body_decreases) simp_all
  show "\<exists>Q R. DivMod A B = Some (Inr (Q, R)) \<and> (length (a R) < length (a B) \<or> a R = [0])"
    if "invariants A \<and> p A = p f \<and> invariants B \<and> p B = p f \<and> a B \<noteq> [0]" for A B
    using DivMod_correct [of A B] that pr mb by auto
  show "\<exists>r. PowX k f = Some (Inr r)" if "1 \<le> Degree f" for k
    using PowX_correct [OF pr f that mb, of k] by blast
qed

text \<open>
  The claim as stated fails in two places. It speaks of the degree, and \<open>Degree\<close> is 0 for
  the zero polynomial as for a constant: the last iteration of a division by a constant
  takes the remainder from a constant to zero, and the last iteration of \<open>GCD\<close> takes the
  second argument from a constant to zero, so the degree stays 0. Both happen inside
  \<open>IsIrreducible\<close> of \<open>x^2 + x + 1\<close> over \<open>GF(2)\<close>, which calls \<open>GCD(f, 1)\<close>. And for a
  prime modulus above \<open>2^30\<close> the procedure need not return a verdict: over
  \<open>p = 2147483647\<close> the constructor turns \<open>[1, 0, 1]\<close> into \<open>[-1, 0, -1]\<close>, and
  \<open>IsIrreducible\<close> of it throws ``element is not invertible''.
\<close>

theorem degree_not_decreasing:
  "DivMod_cond \<lparr>p = 2, a = [1]\<rparr> \<lparr>p = 2, a = [1]\<rparr> \<and>
   Degree (snd (DivMod_body \<lparr>p = 2, a = [1]\<rparr> 2 1 ([0], \<lparr>p = 2, a = [1]\<rparr>))) = Degree \<lparr>p = 2, a = [1]\<rparr> \<and>
   DivMod \<lparr>p = 2, a = [1, 1, 1]\<rparr> \<lparr>p = 2, a = [1]\<rparr>
     = Some (Inr (\<lparr>p = 2, a = [1, 1, 1]\<rparr>, \<lparr>p = 2, a = [0]\<rparr>)) \<and>
   Degree \<lparr>p = 2, a = [0]\<rparr> = Degree \<lparr>p = 2, a = [1]\<rparr> \<and>
   Poly_vec [1, 0, 1] 2147483647 = \<lparr>p = 2147483647, a = [- 1, 0, - 1]\<rparr> \<and>
   IsIrreducible (Poly_vec [1, 0, 1] 2147483647) = Some (Inl NotInvertible)"
  by code_simp

theorem IsIrreducible_terminates_witness:
  "\<exists>b. IsIrreducible \<lparr>p = 2, a = [1, 1, 0, 1]\<rparr> = Some (Inr b)"
  using IsIrreducible_terminates [of "\<lparr>p = 2, a = [1, 1, 0, 1]\<rparr>"]
  by (simp add: is_prime_def invariants_def)

subsection \<open>C10: polynomials of degree one\<close>

text \<open>
  Claim C10, as amended. For every \<open>f\<close> of degree exactly one that satisfies the
  invariants over a prime modulus below \<open>2^30\<close>, \<open>PowX(p^1, f)\<close> returns a remainder of
  degree 0, subtracting the polynomial \<open>x\<close> from it does not give the zero polynomial, and
  \<open>IsIrreducible(f)\<close> returns false.
\<close>

theorem IsIrreducible_degree_one:
  assumes "is_prime (p f)" and "p f < 2 ^ 30" and "invariants f" and "Degree f = 1"
  shows "\<exists>x. PowX (PowInt (p f) 1) f = Some (Inr x) \<and> Degree x = 0 \<and>
           a (Subtract x (Poly_vec [0, 1] (p f))) \<noteq> [0] \<and>
           IsIrreducible f = Some (Inr False)"
proof -
  have "p f \<le> 2 ^ 30"
    using assms(2) by simp
  from IsIrreducible_linear [OF assms(1,3,4) this] show ?thesis
    using assms(4) by simp
qed

text \<open>
  The claim as stated, for every prime modulus, fails above \<open>2^30\<close>. Over
  \<open>p = 2147483647\<close> the constructor turns \<open>[1, 2]\<close> into \<open>[-1, 0]\<close>, a polynomial of
  degree one for \<open>Degree\<close>, and \<open>IsIrreducible\<close> of it does not return false: it throws
  ``element is not invertible''.
\<close>

theorem IsIrreducible_degree_one_overflow:
  "Poly_vec [1, 2] 2147483647 = \<lparr>p = 2147483647, a = [- 1, 0]\<rparr> \<and>
   Degree (Poly_vec [1, 2] 2147483647) = 1 \<and>
   IsIrreducible (Poly_vec [1, 2] 2147483647) = Some (Inl NotInvertible)"
  by code_simp

theorem IsIrreducible_degree_one_witness:
  "\<exists>x. PowX (PowInt 3 1) \<lparr>p = 3, a = [1, 2]\<rparr> = Some (Inr x) \<and> Degree x = 0 \<and>
         a (Subtract x (Poly_vec [0, 1] 3)) \<noteq> [0] \<and>
         IsIrreducible \<lparr>p = 3, a = [1, 2]\<rparr> = Some (Inr False)"
proof -
  have "is_prime 3"
    by code_simp
  then show ?thesis
    using IsIrreducible_degree_one [of "\<lparr>p = 3, a = [1, 2]\<rparr>"]
    by (simp add: invariants_def Degree_def)
qed

end
